theory Spec2Isabelle
  imports Main
begin

section \<open>Strings\<close>

text \<open>
  A JavaScript string is a sequence of UTF-16 code units; a code unit is modelled as a
  natural number and a string as the list of its code units, so that \<open>length\<close> is the
  \<open>.length\<close> of the source. \<open>js\<close> turns an ASCII literal into such a string.
\<close>

type_synonym jsstring = "nat list"

definition js :: "string \<Rightarrow> jsstring" where
  "js s = map (of_char :: char \<Rightarrow> nat) s"

definition in_ranges :: "(nat \<times> nat) list \<Rightarrow> nat \<Rightarrow> bool" where
  "in_ranges rs c = list_ex (\<lambda>r. fst r \<le> c \<and> c \<le> snd r) rs"

text \<open>
  The code units that \<open>String.prototype.trim\<close> strips and that \<open>\s\<close> matches in a
  regular expression (WhiteSpace and LineTerminator of ECMAScript): TAB, LF, VT, FF, CR,
  SPACE, NBSP, U+1680, U+2000..U+200A, U+2028, U+2029, U+202F, U+205F, U+3000, U+FEFF.
\<close>

definition whitespace :: "(nat \<times> nat) list" where
  "whitespace = [(9, 13), (32, 32), (160, 160), (5760, 5760), (8192, 8202),
     (8232, 8233), (8239, 8239), (8287, 8287), (12288, 12288), (65279, 65279)]"

definition isWhiteSpace :: "nat \<Rightarrow> bool" where
  "isWhiteSpace c = in_ranges whitespace c"

definition trim :: "jsstring \<Rightarrow> jsstring" where
  "trim s = rev (dropWhile isWhiteSpace (rev (dropWhile isWhiteSpace s)))"

section \<open>JSON text\<close>

text \<open>
  \<open>JSON.stringify\<close> and \<open>JSON.parse\<close> are built-ins of the platform. They are modelled
  on the values below. Numbers are the integers (the catalogue's ids, prices and
  quantities are integers; floating-point rounding, and the exponent notation that
  \<open>JSON.stringify\<close> uses from \<open>1e21\<close> on, are outside this model): \<open>JNum\<close> is a number
  written as an integer, and \<open>JReal\<close> keeps the literal of a number written with a fraction
  or an exponent, whose value is not modelled.
\<close>

datatype json =
    JNull
  | JBool bool
  | JNum int
  | JReal jsstring
  | JStr jsstring
  | JArr "json list"
  | JObj "(jsstring \<times> json) list"

fun digits :: "nat \<Rightarrow> jsstring" where
  "digits n = (if n < 10 then [48 + n] else digits (n div 10) @ [48 + n mod 10])"

declare digits.simps [simp del]

definition number_text :: "int \<Rightarrow> jsstring" where
  "number_text i = (if i < 0 then 45 # digits (nat (- i)) else digits (nat i))"

definition hex_digit :: "nat \<Rightarrow> nat" where
  "hex_digit d = (if d < 10 then 48 + d else 87 + d)"

definition unicode_escape :: "nat \<Rightarrow> jsstring" where
  "unicode_escape c = [92, 117, hex_digit (c div 4096 mod 16), hex_digit (c div 256 mod 16),
     hex_digit (c div 16 mod 16), hex_digit (c mod 16)]"

text \<open>
  QuoteJSONString: the quotation mark and the backslash are escaped, the control
  characters below U+0020 are written \<open>\b \t \n \f \r\<close> or \<open>\u00XX\<close>, every other code unit
  is written as it is (also an unpaired surrogate, which newer engines write as
  \<open>\uXXXX\<close>: \<open>JSON.parse\<close> reads the same code unit from both).
\<close>

definition escape_char :: "nat \<Rightarrow> jsstring" where
  "escape_char c =
     (if c = 34 then [92, 34]
      else if c = 92 then [92, 92]
      else if c = 8 then [92, 98]
      else if c = 9 then [92, 116]
      else if c = 10 then [92, 110]
      else if c = 12 then [92, 102]
      else if c = 13 then [92, 114]
      else if c < 32 then unicode_escape c
      else [c])"

definition quote :: "jsstring \<Rightarrow> jsstring" where
  "quote s = 34 # concat (map escape_char s) @ [34]"

fun JSON_stringify :: "json \<Rightarrow> jsstring"
  and stringify_elements :: "json list \<Rightarrow> jsstring"
  and stringify_members :: "(jsstring \<times> json) list \<Rightarrow> jsstring" where
  "JSON_stringify JNull = js ''null''"
| "JSON_stringify (JBool b) = (if b then js ''true'' else js ''false'')"
| "JSON_stringify (JNum i) = number_text i"
| "JSON_stringify (JReal literal) = literal"
| "JSON_stringify (JStr s) = quote s"
| "JSON_stringify (JArr xs) = 91 # stringify_elements xs @ [93]"
| "JSON_stringify (JObj ms) = 123 # stringify_members ms @ [125]"
| "stringify_elements [] = []"
| "stringify_elements [x] = JSON_stringify x"
| "stringify_elements (x # y # ys) = JSON_stringify x @ 44 # stringify_elements (y # ys)"
| "stringify_members [] = []"
| "stringify_members [(k, v)] = quote k @ 58 # JSON_stringify v"
| "stringify_members ((k, v) # m # ms) =
     quote k @ 58 # JSON_stringify v @ 44 # stringify_members (m # ms)"

text \<open>
  \<open>JSON.parse\<close>: a recursive descent over the text. White space between tokens is space,
  tab, line feed and carriage return. A string may hold any code unit from U+0020 on
  except the quotation mark and the backslash, and the escapes \<open>\" \\ \/ \b \f \n \r \t\<close>
  and \<open>\uXXXX\<close>. A number is an optional minus, an integer part without a leading zero,
  an optional fraction and an optional exponent. An object keeps its members in the order
  of the text (a key that is an array index is not moved to the front); a key given twice
  keeps its first place and its last value. The first argument of \<open>parse_value\<close> bounds the
  depth of the descent; \<open>JSON_parse\<close> gives it more than any text of that length needs
  (\<open>JSON_parse_fuel\<close> below), and the result \<open>None\<close> stands for the SyntaxError of the
  built-in.
\<close>

definition json_space :: "nat \<Rightarrow> bool" where
  "json_space c = (c = 32 \<or> c = 9 \<or> c = 10 \<or> c = 13)"

definition skip_ws :: "jsstring \<Rightarrow> jsstring" where
  "skip_ws s = dropWhile json_space s"

definition hex_value :: "nat \<Rightarrow> nat option" where
  "hex_value c =
     (if 48 \<le> c \<and> c \<le> 57 then Some (c - 48)
      else if 97 \<le> c \<and> c \<le> 102 then Some (c - 87)
      else if 65 \<le> c \<and> c \<le> 70 then Some (c - 55)
      else None)"

definition hex4 :: "nat \<Rightarrow> nat \<Rightarrow> nat \<Rightarrow> nat \<Rightarrow> nat option" where
  "hex4 a b c d =
     (case hex_value a of None \<Rightarrow> None | Some h1 \<Rightarrow>
       (case hex_value b of None \<Rightarrow> None | Some h2 \<Rightarrow>
         (case hex_value c of None \<Rightarrow> None | Some h3 \<Rightarrow>
           (case hex_value d of None \<Rightarrow> None | Some h4 \<Rightarrow>
              Some (((h1 * 16 + h2) * 16 + h3) * 16 + h4)))))"

definition unescape :: "nat \<Rightarrow> nat option" where
  "unescape e =
     (if e = 34 then Some 34
      else if e = 92 then Some 92
      else if e = 47 then Some 47
      else if e = 98 then Some 8
      else if e = 102 then Some 12
      else if e = 110 then Some 10
      else if e = 114 then Some 13
      else if e = 116 then Some 9
      else None)"

definition cons_char :: "nat \<Rightarrow> (jsstring \<times> jsstring) option \<Rightarrow> (jsstring \<times> jsstring) option" where
  "cons_char c res = (case res of None \<Rightarrow> None | Some (str, r) \<Rightarrow> Some (c # str, r))"

fun parse_chars :: "jsstring \<Rightarrow> (jsstring \<times> jsstring) option" where
  "parse_chars [] = None"
| "parse_chars (c # cs) =
     (if c = 34 then Some ([], cs)
      else if c = 92 then
        (case cs of
           [] \<Rightarrow> None
         | e # es \<Rightarrow>
             if e = 117 then
               (case es of
                  h1 # h2 # h3 # h4 # rest \<Rightarrow>
                    (case hex4 h1 h2 h3 h4 of
                       None \<Rightarrow> None
                     | Some v \<Rightarrow> cons_char v (parse_chars rest))
                | _ \<Rightarrow> None)
             else (case unescape e of None \<Rightarrow> None | Some v \<Rightarrow> cons_char v (parse_chars es)))
      else if c < 32 then None
      else cons_char c (parse_chars cs))"

definition is_digit :: "nat \<Rightarrow> bool" where
  "is_digit c = (48 \<le> c \<and> c \<le> 57)"

definition digits_value :: "jsstring \<Rightarrow> nat" where
  "digits_value ds = foldl (\<lambda>a d. 10 * a + (d - 48)) 0 ds"

definition fraction :: "jsstring \<Rightarrow> (jsstring \<times> jsstring) option" where
  "fraction s =
     (case s of
        [] \<Rightarrow> Some ([], s)
      | c # r \<Rightarrow>
          if c = 46 then
            (if takeWhile is_digit r = [] then None
             else Some (c # takeWhile is_digit r, dropWhile is_digit r))
          else Some ([], s))"

definition exponent :: "jsstring \<Rightarrow> (jsstring \<times> jsstring) option" where
  "exponent s =
     (case s of
        [] \<Rightarrow> Some ([], s)
      | c # r \<Rightarrow>
          if c = 101 \<or> c = 69 then
            (let sign = (case r of [] \<Rightarrow> [] | d # _ \<Rightarrow> if d = 43 \<or> d = 45 then [d] else []);
                 r1 = drop (length sign) r
             in if takeWhile is_digit r1 = [] then None
                else Some (c # sign @ takeWhile is_digit r1, dropWhile is_digit r1))
          else Some ([], s))"

definition parse_number :: "jsstring \<Rightarrow> (json \<times> jsstring) option" where
  "parse_number s =
     (let negative = (case s of [] \<Rightarrow> False | c # _ \<Rightarrow> c = 45);
          s1 = (if negative then tl s else s);
          whole = takeWhile is_digit s1
      in if whole = [] \<or> (hd whole = 48 \<and> 1 < length whole) then None
         else case fraction (dropWhile is_digit s1) of
           None \<Rightarrow> None
         | Some (frac, s2) \<Rightarrow>
             (case exponent s2 of
                None \<Rightarrow> None
              | Some (ex, s3) \<Rightarrow>
                  if frac = [] \<and> ex = [] then
                    Some (JNum (if negative then - int (digits_value whole)
                                else int (digits_value whole)), s3)
                  else Some (JReal (take (length s - length s3) s), s3)))"

fun object_put :: "jsstring \<Rightarrow> json \<Rightarrow> (jsstring \<times> json) list \<Rightarrow> (jsstring \<times> json) list" where
  "object_put k v [] = [(k, v)]"
| "object_put k v (m # ms) = (if fst m = k then (k, v) # ms else m # object_put k v ms)"

definition object_of :: "(jsstring \<times> json) list \<Rightarrow> (jsstring \<times> json) list" where
  "object_of ms = foldl (\<lambda>obj m. object_put (fst m) (snd m) obj) [] ms"

fun parse_value :: "nat \<Rightarrow> jsstring \<Rightarrow> (json \<times> jsstring) option"
  and parse_elements :: "nat \<Rightarrow> jsstring \<Rightarrow> (json list \<times> jsstring) option"
  and parse_members :: "nat \<Rightarrow> jsstring \<Rightarrow> ((jsstring \<times> json) list \<times> jsstring) option" where
  "parse_value 0 s = None"
| "parse_value (Suc k) s =
     (case skip_ws s of
        [] \<Rightarrow> None
      | c # cs \<Rightarrow>
          if c = 34 then
            (case parse_chars cs of None \<Rightarrow> None | Some (str, r) \<Rightarrow> Some (JStr str, r))
          else if c = 91 then
            (case skip_ws cs of
               [] \<Rightarrow> None
             | d # ds \<Rightarrow>
                 if d = 93 then Some (JArr [], ds)
                 else (case parse_elements k (d # ds) of
                         None \<Rightarrow> None
                       | Some (xs, r) \<Rightarrow> Some (JArr xs, r)))
          else if c = 123 then
            (case skip_ws cs of
               [] \<Rightarrow> None
             | d # ds \<Rightarrow>
                 if d = 125 then Some (JObj [], ds)
                 else (case parse_members k (d # ds) of
                         None \<Rightarrow> None
                       | Some (ms, r) \<Rightarrow> Some (JObj (object_of ms), r)))
          else if take 4 (c # cs) = js ''null'' then Some (JNull, drop 4 (c # cs))
          else if take 4 (c # cs) = js ''true'' then Some (JBool True, drop 4 (c # cs))
          else if take 5 (c # cs) = js ''false'' then Some (JBool False, drop 5 (c # cs))
          else parse_number (c # cs))"
| "parse_elements 0 s = None"
| "parse_elements (Suc k) s =
     (case parse_value k s of
        None \<Rightarrow> None
      | Some (x, r) \<Rightarrow>
          (case skip_ws r of
             [] \<Rightarrow> None
           | c # cs \<Rightarrow>
               if c = 44 then
                 (case parse_elements k cs of
                    None \<Rightarrow> None
                  | Some (xs, r') \<Rightarrow> Some (x # xs, r'))
               else if c = 93 then Some ([x], cs)
               else None))"
| "parse_members 0 s = None"
| "parse_members (Suc k) s =
     (case skip_ws s of
        [] \<Rightarrow> None
      | c # cs \<Rightarrow>
          if c = 34 then
            (case parse_chars cs of
               None \<Rightarrow> None
             | Some (key, r) \<Rightarrow>
                 (case skip_ws r of
                    [] \<Rightarrow> None
                  | d # ds \<Rightarrow>
                      if d = 58 then
                        (case parse_value k ds of
                           None \<Rightarrow> None
                         | Some (v, r') \<Rightarrow>
                             (case skip_ws r' of
                                [] \<Rightarrow> None
                              | e # es \<Rightarrow>
                                  if e = 44 then
                                    (case parse_members k es of
                                       None \<Rightarrow> None
                                     | Some (ms, r'') \<Rightarrow> Some ((key, v) # ms, r''))
                                  else if e = 125 then Some ([(key, v)], es)
                                  else None))
                      else None))
          else None)"

definition JSON_parse :: "jsstring \<Rightarrow> json option" where
  "JSON_parse text =
     (case parse_value (2 * length text + 2) text of
        None \<Rightarrow> None
      | Some (v, r) \<Rightarrow> if skip_ws r = [] then Some v else None)"

section \<open>The cart (cart.js)\<close>

subsection \<open>Data\<close>

record product =
  id' :: int
  name :: jsstring
  description :: jsstring
  price :: int
  category :: jsstring
  image' :: jsstring

record cart_item = product +
  quantity :: int

text \<open>The JavaScript object of a cart entry, with its properties in creation order.\<close>

definition item_json :: "cart_item \<Rightarrow> json" where
  "item_json i = JObj
     [(js ''id'', JNum (id' i)), (js ''name'', JStr (name i)),
      (js ''description'', JStr (description i)), (js ''price'', JNum (price i)),
      (js ''category'', JStr (category i)), (js ''image'', JStr (image' i)),
      (js ''quantity'', JNum (quantity i))]"

definition items_json :: "cart_item list \<Rightarrow> json" where
  "items_json xs = JArr (map item_json xs)"

subsection \<open>The storage and log collaborators\<close>

text \<open>
  \<open>localStorage\<close> is reduced to the one key the cart uses, \<open>techstore_cart\<close>: \<open>cell\<close> is
  the text stored under it (\<open>None\<close> when the key is absent). Reading and writing can throw
  (storage disabled, quota exceeded); the two flags say whether they do.
\<close>

datatype exn = StorageError | SyntaxError

datatype log_entry = SaveFailed exn | LoadFailed exn

record storage =
  cell :: "jsstring option"
  read_fails :: bool
  write_fails :: bool

definition getItem :: "storage \<Rightarrow> exn + jsstring option" where
  "getItem s = (if read_fails s then Inl StorageError else Inr (cell s))"

definition setItem :: "jsstring \<Rightarrow> storage \<Rightarrow> exn + storage" where
  "setItem text s = (if write_fails s then Inl StorageError else Inr (s\<lparr>cell := Some text\<rparr>))"

text \<open>
  The state of a \<open>ProductCart\<close>: \<open>this.items\<close>, the storage, and what was written with
  \<open>console.error\<close>. \<open>updateCartUI\<close> and \<open>renderCartItems\<close> read \<open>this.items\<close> and write
  to the page only; the page is not part of the state.
\<close>

record 'i cart_state =
  items :: 'i
  localStorage :: storage
  console :: "log_entry list"

type_synonym cart = "cart_item list cart_state"

subsection \<open>Operations\<close>

definition validateProduct :: "product option \<Rightarrow> bool" where
  "validateProduct p =
     (case p of None \<Rightarrow> False
      | Some q \<Rightarrow> id' q \<noteq> 0 \<and> name q \<noteq> [] \<and> price q > 0)"

text \<open>\<open>try { body } catch (error) { handler }\<close>, the body being an exception or a result.\<close>

definition try_catch :: "exn + 'a \<Rightarrow> (exn \<Rightarrow> 'a) \<Rightarrow> 'a" where
  "try_catch body handler = (case body of Inl error \<Rightarrow> handler error | Inr result \<Rightarrow> result)"

definition saveToStorage :: "cart \<Rightarrow> cart" where
  "saveToStorage c =
     try_catch
       (case setItem (JSON_stringify (items_json (items c))) (localStorage c) of
          Inl e \<Rightarrow> Inl e
        | Inr s \<Rightarrow> Inr (c\<lparr>localStorage := s\<rparr>))
       (\<lambda>error. c\<lparr>console := console c @ [SaveFailed error]\<rparr>)"

text \<open>
  \<open>loadFromStorage\<close> assigns whatever \<open>JSON.parse\<close> returns to \<open>this.items\<close>, so here
  \<open>this.items\<close> is a JavaScript value; \<open>JArr []\<close> is the empty array. \<open>ProductCart\<close> is the
  constructor, run on a storage and a log; \<open>as_object\<close> is a cart whose \<open>this.items\<close> is
  an entry list, seen as such a value.
\<close>

definition loadFromStorage :: "json cart_state \<Rightarrow> json cart_state" where
  "loadFromStorage c =
     try_catch
       (case getItem (localStorage c) of
          Inl e \<Rightarrow> Inl e
        | Inr storedCart \<Rightarrow>
            (case storedCart of
               None \<Rightarrow> Inr c
             | Some stored \<Rightarrow>
                 if stored \<noteq> [] then
                   (case JSON_parse stored of
                      None \<Rightarrow> Inl SyntaxError
                    | Some v \<Rightarrow> Inr (c\<lparr>items := v\<rparr>))
                 else Inr c))
       (\<lambda>error. c\<lparr>console := console c @ [LoadFailed error], items := JArr []\<rparr>)"

definition ProductCart :: "storage \<Rightarrow> log_entry list \<Rightarrow> json cart_state" where
  "ProductCart s l = loadFromStorage \<lparr>items = JArr [], localStorage = s, console = l\<rparr>"

definition as_object :: "cart \<Rightarrow> json cart_state" where
  "as_object c =
     \<lparr>items = items_json (items c), localStorage = localStorage c, console = console c\<rparr>"

text \<open>
  \<open>find\<close> returns the first matching object, and the source then assigns to a property of
  it: the first element that satisfies \<open>P\<close> is replaced by \<open>f\<close> of it.
\<close>

fun update_first :: "('a \<Rightarrow> bool) \<Rightarrow> ('a \<Rightarrow> 'a) \<Rightarrow> 'a list \<Rightarrow> 'a list" where
  "update_first P f [] = []"
| "update_first P f (x # xs) = (if P x then f x # xs else x # update_first P f xs)"

definition addProduct :: "product option \<Rightarrow> cart \<Rightarrow> bool \<times> cart" where
  "addProduct p c =
     (if \<not> validateProduct p then (False, c)
      else case p of
        None \<Rightarrow> (False, c)
      | Some q \<Rightarrow>
          (case find (\<lambda>item. id' item = id' q) (items c) of
             Some existingItem \<Rightarrow>
               (True, saveToStorage (c\<lparr>items :=
                  update_first (\<lambda>item. id' item = id' q)
                    (\<lambda>item. item\<lparr>quantity := quantity item + 1\<rparr>) (items c)\<rparr>))
           | None \<Rightarrow>
               (True, saveToStorage (c\<lparr>items :=
                  items c @ [product.extend q (cart_item.fields 1)]\<rparr>))))"

definition removeProduct :: "int \<Rightarrow> cart \<Rightarrow> bool \<times> cart" where
  "removeProduct productId c =
     (let initialLength = length (items c);
          c1 = c\<lparr>items := filter (\<lambda>item. id' item \<noteq> productId) (items c)\<rparr>
      in if length (items c1) \<noteq> initialLength then (True, saveToStorage c1)
         else (False, c1))"

definition updateQuantity :: "int \<Rightarrow> int \<Rightarrow> cart \<Rightarrow> bool \<times> cart" where
  "updateQuantity productId qty c =
     (if qty \<le> 0 then removeProduct productId c
      else case find (\<lambda>item. id' item = productId) (items c) of
        Some item \<Rightarrow>
          (True, saveToStorage (c\<lparr>items :=
             update_first (\<lambda>item. id' item = productId)
               (\<lambda>item. item\<lparr>quantity := qty\<rparr>) (items c)\<rparr>))
      | None \<Rightarrow> (False, c))"

definition clear :: "cart \<Rightarrow> cart" where
  "clear c = saveToStorage (c\<lparr>items := []\<rparr>)"

definition calculateTotal :: "cart \<Rightarrow> int" where
  "calculateTotal c = foldl (\<lambda>total item. total + price item * quantity item) 0 (items c)"

definition getItemCount :: "cart \<Rightarrow> int" where
  "getItemCount c = foldl (\<lambda>count item. count + quantity item) 0 (items c)"

text \<open>A call of one of the three mutating operations, and a sequence of calls.\<close>

datatype call = Add "product option" | Remove int | SetQuantity int int

fun perform :: "call \<Rightarrow> cart \<Rightarrow> cart" where
  "perform (Add p) c = snd (addProduct p c)"
| "perform (Remove i) c = snd (removeProduct i c)"
| "perform (SetQuantity i q) c = snd (updateQuantity i q c)"

fun run :: "call list \<Rightarrow> cart \<Rightarrow> cart" where
  "run [] c = c"
| "run (x # xs) c = run xs (perform x c)"

text \<open>Two concrete values used in the examples.\<close>

definition phone :: product where
  "phone = \<lparr>id' = 1, name = js ''iPhone 14 Pro'', description = js ''Apple'',
     price = 99990, category = js ''smartphones'', image' = js ''images/iphnoe14.png''\<rparr>"

definition empty_cart :: cart where
  "empty_cart = \<lparr>items = [],
     localStorage = \<lparr>cell = None, read_fails = False, write_fails = False\<rparr>, console = []\<rparr>"

section \<open>Regular expressions\<close>

text \<open>
  The four patterns of \<open>FormValidator\<close> are regular expression literals. Their syntax
  tree is the datatype below, and \<open>ends r n s\<close> lists the ways \<open>r\<close> can match at the head
  of \<open>s\<close>, each given by what is left of \<open>s\<close> after the match; \<open>n\<close> is the length of the
  whole input, so that \<open>^\<close> can tell the start. \<open>Quant lo hi r\<close> is \<open>r{lo,hi}\<close>: first \<open>lo\<close>
  iterations, then further ones that each consume something, at most \<open>hi - lo\<close> of them
  when there is an upper bound. \<open>?\<close> is \<open>{0,1}\<close>, \<open>*\<close> is \<open>{0,}\<close> and \<open>+\<close> is \<open>{1,}\<close>.
\<close>

definition cu :: "char \<Rightarrow> nat" where
  "cu c = of_char c"

datatype regex =
    Empty
  | Chr nat
  | Class bool "(nat \<times> nat) list"
  | Dot
  | Seq regex regex
  | Quant nat "nat option" regex
  | Lookahead regex
  | Bol
  | Eol

text \<open>One code unit that satisfies \<open>P\<close>.\<close>

definition one :: "(nat \<Rightarrow> bool) \<Rightarrow> jsstring \<Rightarrow> jsstring list" where
  "one P s = (case s of [] \<Rightarrow> [] | x # xs \<Rightarrow> if P x then [xs] else [])"

definition line_terminator :: "nat \<Rightarrow> bool" where
  "line_terminator c = (c = 10 \<or> c = 13 \<or> c = 8232 \<or> c = 8233)"

fun repeat_exactly :: "(jsstring \<Rightarrow> jsstring list) \<Rightarrow> nat \<Rightarrow> jsstring \<Rightarrow> jsstring list" where
  "repeat_exactly f 0 s = [s]"
| "repeat_exactly f (Suc k) s = concat (map (repeat_exactly f k) (f s))"

fun repeat_more :: "(jsstring \<Rightarrow> jsstring list) \<Rightarrow> nat \<Rightarrow> jsstring \<Rightarrow> jsstring list" where
  "repeat_more f 0 s = [s]"
| "repeat_more f (Suc k) s =
     s # concat (map (repeat_more f k) (filter (\<lambda>t. length t < length s) (f s)))"

primrec ends :: "regex \<Rightarrow> nat \<Rightarrow> jsstring \<Rightarrow> jsstring list" where
  "ends Empty n s = [s]"
| "ends (Chr c) n s = one (\<lambda>x. x = c) s"
| "ends (Class negated rs) n s = one (\<lambda>x. in_ranges rs x \<noteq> negated) s"
| "ends Dot n s = one (\<lambda>x. \<not> line_terminator x) s"
| "ends (Seq a b) n s = concat (map (ends b n) (ends a n s))"
| "ends (Quant lo hi r) n s =
     concat (map (\<lambda>t. repeat_more (ends r n) (case hi of None \<Rightarrow> length t | Some m \<Rightarrow> m - lo) t)
       (repeat_exactly (ends r n) lo s))"
| "ends (Lookahead r) n s = (if ends r n s = [] then [] else [s])"
| "ends Bol n s = (if length s = n then [s] else [])"
| "ends Eol n s = (if s = [] then [s] else [])"

fun suffixes :: "'a list \<Rightarrow> 'a list list" where
  "suffixes [] = [[]]"
| "suffixes (x # xs) = (x # xs) # suffixes xs"

text \<open>\<open>RegExp.prototype.test\<close> (no flags): a match may start at any position.\<close>

definition test :: "regex \<Rightarrow> jsstring \<Rightarrow> bool" where
  "test r s = list_ex (\<lambda>t. ends r (length s) t \<noteq> []) (suffixes s)"

definition seq :: "regex list \<Rightarrow> regex" where
  "seq rs = foldr Seq rs Empty"

section \<open>The form validator (validation.js)\<close>

datatype pattern_name = Email | Phone | Name | Password

text \<open>
  \<open>this.patterns\<close>: \<^verbatim>\<open>/^[^\s@]+@[^\s@]+\.[^\s@]+$/\<close>,
  \<^verbatim>\<open>/^\+7\s?\(?\d{3}\)?\s?\d{3}-?\d{2}-?\d{2}$/\<close>, the name pattern (Latin and
  Cyrillic letters U+0430..U+044F, U+0410..U+042F, U+0451, U+0401, white space, hyphen,
  apostrophe, once or more) and
  \<^verbatim>\<open>/^(?=.*[a-z])(?=.*[A-Z])(?=.*\d)[a-zA-Z\d]{8,}$/\<close>.
\<close>

definition not_space_or_at :: regex where
  "not_space_or_at = Class True (whitespace @ [(cu CHR ''@'', cu CHR ''@'')])"

definition digit :: regex where
  "digit = Class False [(cu CHR ''0'', cu CHR ''9'')]"

definition optional :: "regex \<Rightarrow> regex" where
  "optional r = Quant 0 (Some 1) r"

definition patterns :: "pattern_name \<Rightarrow> regex" where
  "patterns p = (case p of
     Email \<Rightarrow> seq [Bol, Quant 1 None not_space_or_at, Chr (cu CHR ''@''),
        Quant 1 None not_space_or_at, Chr (cu CHR ''.''), Quant 1 None not_space_or_at, Eol]
   | Phone \<Rightarrow> seq [Bol, Chr (cu CHR ''+''), Chr (cu CHR ''7''),
        optional (Class False whitespace), optional (Chr (cu CHR ''('')),
        Quant 3 (Some 3) digit, optional (Chr (cu CHR '')'')),
        optional (Class False whitespace), Quant 3 (Some 3) digit,
        optional (Chr (cu CHR ''-'')), Quant 2 (Some 2) digit,
        optional (Chr (cu CHR ''-'')), Quant 2 (Some 2) digit, Eol]
   | Name \<Rightarrow> seq [Bol, Quant 1 None (Class False
        ([(cu CHR ''a'', cu CHR ''z''), (cu CHR ''A'', cu CHR ''Z''), (1072, 1103),
          (1040, 1071), (1105, 1105), (1025, 1025)] @ whitespace @
         [(cu CHR ''-'', cu CHR ''-''), (39, 39)])), Eol]
   | Password \<Rightarrow> seq [Bol,
        Lookahead (Seq (Quant 0 None Dot) (Class False [(cu CHR ''a'', cu CHR ''z'')])),
        Lookahead (Seq (Quant 0 None Dot) (Class False [(cu CHR ''A'', cu CHR ''Z'')])),
        Lookahead (Seq (Quant 0 None Dot) digit),
        Quant 8 None (Class False
          [(cu CHR ''a'', cu CHR ''z''), (cu CHR ''A'', cu CHR ''Z''), (cu CHR ''0'', cu CHR ''9'')]),
        Eol])"

text \<open>
  The rules of one field. A pattern is one of the four names of \<open>this.patterns\<close>, as in the
  data model of the specification (on any other name the source would throw).
  \<open>this.messages\<close> holds fixed texts and two templates; a message is named here by its key
  (and the bound, for the templates). \<open>DefaultCustomMessage\<close> is the literal the source
  falls back to when the rules give no \<open>customMessage\<close>.
\<close>

record rules =
  required :: bool
  minLength :: "int option"
  maxLength :: "int option"
  pattern :: "pattern_name option"
  custom :: "(jsstring \<Rightarrow> bool) option"
  customMessage :: "jsstring option"

datatype message =
    RequiredMessage
  | MinLengthMessage int
  | MaxLengthMessage int
  | PatternMessage pattern_name
  | CustomMessage jsstring
  | DefaultCustomMessage

text \<open>
  The four checks after the emptiness tests, each \<open>Some\<close> error or \<open>None\<close>. A bound that
  is 0 and a custom message that is empty are falsy in the source's \<open>&&\<close> and \<open>||\<close>.
\<close>

definition check_minLength :: "rules \<Rightarrow> jsstring \<Rightarrow> message option" where
  "check_minLength r v =
     (case minLength r of
        Some m \<Rightarrow> if m \<noteq> 0 \<and> int (length v) < m then Some (MinLengthMessage m) else None
      | None \<Rightarrow> None)"

definition check_maxLength :: "rules \<Rightarrow> jsstring \<Rightarrow> message option" where
  "check_maxLength r v =
     (case maxLength r of
        Some m \<Rightarrow> if m \<noteq> 0 \<and> int (length v) > m then Some (MaxLengthMessage m) else None
      | None \<Rightarrow> None)"

definition check_pattern :: "rules \<Rightarrow> jsstring \<Rightarrow> message option" where
  "check_pattern r v =
     (case pattern r of
        Some p \<Rightarrow> if \<not> test (patterns p) v then Some (PatternMessage p) else None
      | None \<Rightarrow> None)"

definition custom_error :: "rules \<Rightarrow> message" where
  "custom_error r =
     (case customMessage r of
        Some m \<Rightarrow> if m \<noteq> [] then CustomMessage m else DefaultCustomMessage
      | None \<Rightarrow> DefaultCustomMessage)"

definition check_custom :: "rules \<Rightarrow> jsstring \<Rightarrow> message option" where
  "check_custom r v =
     (case custom r of
        Some f \<Rightarrow> if \<not> f v then Some (custom_error r) else None
      | None \<Rightarrow> None)"

text \<open>\<open>validateField\<close>: the field is given by its \<open>value\<close>; \<open>None\<close> is the source's null.\<close>

definition validateField :: "jsstring \<Rightarrow> rules \<Rightarrow> message option" where
  "validateField field r =
     (let v = trim field in
      if required r \<and> v = [] then Some RequiredMessage
      else if v = [] then None
      else case check_minLength r v of Some e \<Rightarrow> Some e | None \<Rightarrow>
        (case check_maxLength r v of Some e \<Rightarrow> Some e | None \<Rightarrow>
          (case check_pattern r v of Some e \<Rightarrow> Some e | None \<Rightarrow>
            (case check_custom r v of Some e \<Rightarrow> Some e | None \<Rightarrow> None))))"

text \<open>
  \<open>validateForm\<close>: the form maps a field name to the value of the element that
  \<open>querySelector\<close> finds for it, \<open>None\<close> when there is no such element; the rules are the
  entries of \<open>fieldsRules\<close> in order. Besides \<open>isValid\<close>, which the source returns, the
  result keeps the local \<open>errors\<close> object and the calls of \<open>showFieldError\<close> and
  \<open>clearFieldError\<close> in the order they are made.
\<close>

datatype ui_call = ShowFieldError jsstring message | ClearFieldError jsstring

record form_result =
  isValid :: bool
  errors :: "jsstring \<rightharpoonup> message"
  ui_calls :: "ui_call list"

fun validateForm_loop ::
  "(jsstring \<rightharpoonup> jsstring) \<Rightarrow> (jsstring \<times> rules) list \<Rightarrow> form_result \<Rightarrow> form_result" where
  "validateForm_loop form [] st = st"
| "validateForm_loop form ((fieldName, r) # rest) st =
     (case form fieldName of
        None \<Rightarrow> validateForm_loop form rest st
      | Some field \<Rightarrow>
          (case validateField field r of
             Some error \<Rightarrow>
               validateForm_loop form rest
                 (st\<lparr>isValid := False, errors := (errors st)(fieldName \<mapsto> error),
                    ui_calls := ui_calls st @ [ShowFieldError fieldName error]\<rparr>)
           | None \<Rightarrow>
               validateForm_loop form rest (st\<lparr>ui_calls := ui_calls st @ [ClearFieldError fieldName]\<rparr>)))"

definition validateForm :: "(jsstring \<rightharpoonup> jsstring) \<Rightarrow> (jsstring \<times> rules) list \<Rightarrow> form_result" where
  "validateForm form fieldsRules =
     validateForm_loop form fieldsRules \<lparr>isValid = True, errors = Map.empty, ui_calls = []\<rparr>"

text \<open>The rule set of the registration form's email field, used in the examples.\<close>

definition email_rules :: rules where
  "email_rules = \<lparr>required = True, minLength = None, maxLength = None,
     pattern = Some Email, custom = None, customMessage = None\<rparr>"

section \<open>The product manager (main.js)\<close>

text \<open>
  \<open>String.prototype.toLowerCase\<close> is a built-in. It is modelled code unit by code unit for
  the Basic Latin, Latin-1 and Cyrillic capitals (the alphabets of the catalogue); any other
  code unit is left as it is.
\<close>

definition lower_unit :: "nat \<Rightarrow> nat" where
  "lower_unit c =
     (if in_ranges [(65, 90), (192, 214), (216, 222), (1040, 1071)] c then c + 32
      else if in_ranges [(1024, 1039)] c then c + 80
      else c)"

definition toLowerCase :: "jsstring \<Rightarrow> jsstring" where
  "toLowerCase s = map lower_unit s"

text \<open>\<open>String.prototype.includes\<close>: the argument occurs somewhere as a substring.\<close>

fun includes' :: "jsstring \<Rightarrow> jsstring \<Rightarrow> bool" where
  "includes' [] sub = (sub = [])"
| "includes' (x # xs) sub = (take (length sub) (x # xs) = sub \<or> includes' xs sub)"

record product_manager =
  products :: "product list"
  filteredProducts :: "product list"

definition filterByCategory :: "jsstring \<Rightarrow> product_manager \<Rightarrow> product list \<times> product_manager" where
  "filterByCategory cat pm =
     (let fp = (if cat = js ''all'' then products pm
                else filter (\<lambda>product. category product = cat) (products pm))
      in (fp, pm\<lparr>filteredProducts := fp\<rparr>))"

definition searchProducts :: "jsstring \<Rightarrow> product_manager \<Rightarrow> product list \<times> product_manager" where
  "searchProducts query pm =
     (if trim query = [] then (products pm, pm\<lparr>filteredProducts := products pm\<rparr>)
      else
        let lowerCaseQuery = toLowerCase query;
            fp = filter (\<lambda>product.
                   includes' (toLowerCase (name product)) lowerCaseQuery \<or>
                   includes' (toLowerCase (description product)) lowerCaseQuery) (products pm)
        in (fp, pm\<lparr>filteredProducts := fp\<rparr>))"

definition getProductById :: "int \<Rightarrow> product_manager \<Rightarrow> product option" where
  "getProductById i pm = find (\<lambda>product. id' product = i) (products pm)"

section \<open>The specification's wording, for comparison\<close>

text \<open>
  The order of checks as the specification lists it: required and empty, minimum length,
  maximum length, pattern, custom predicate, else valid; the result is the error of the
  first check that fails. \<open>length_below\<close> and \<open>length_above\<close> are the two length checks as
  the specification words them.
\<close>

definition length_below :: "rules \<Rightarrow> jsstring \<Rightarrow> message option" where
  "length_below r v =
     (case minLength r of
        Some m \<Rightarrow> if int (length v) < m then Some (MinLengthMessage m) else None
      | None \<Rightarrow> None)"

definition length_above :: "rules \<Rightarrow> jsstring \<Rightarrow> message option" where
  "length_above r v =
     (case maxLength r of
        Some m \<Rightarrow> if int (length v) > m then Some (MaxLengthMessage m) else None
      | None \<Rightarrow> None)"

definition required_empty :: "rules \<Rightarrow> jsstring \<Rightarrow> message option" where
  "required_empty r v = (if required r \<and> v = [] then Some RequiredMessage else None)"

fun first_error :: "message option list \<Rightarrow> message option" where
  "first_error [] = None"
| "first_error (None # rest) = first_error rest"
| "first_error (Some e # rest) = Some e"

definition spec_order :: "jsstring \<Rightarrow> rules \<Rightarrow> message option" where
  "spec_order field r =
     (let v = trim field in
      first_error [required_empty r v, length_below r v, length_above r v,
        check_pattern r v, check_custom r v])"

text \<open>The same order with the step the source has after the first: an empty value is valid.\<close>

definition source_order :: "jsstring \<Rightarrow> rules \<Rightarrow> message option" where
  "source_order field r =
     (let v = trim field in
      if required r \<and> v = [] then Some RequiredMessage
      else if v = [] then None
      else first_error [length_below r v, length_above r v, check_pattern r v, check_custom r v])"

text \<open>The fields on which \<open>validateForm\<close> ran \<open>validateField\<close>: one call per field.\<close>

fun call_field :: "ui_call \<Rightarrow> jsstring" where
  "call_field (ShowFieldError f e) = f"
| "call_field (ClearFieldError f) = f"

definition validated_fields :: "form_result \<Rightarrow> jsstring list" where
  "validated_fields res = map call_field (ui_calls res)"

text \<open>
  Search as the specification words it: the products whose name or description contains
  the trimmed query, case ignored; the whole catalogue when the query trims to nothing.
\<close>

definition search_spec :: "jsstring \<Rightarrow> product list \<Rightarrow> product list" where
  "search_spec query catalogue =
     (if trim query = [] then catalogue
      else filter (\<lambda>product.
             includes' (toLowerCase (name product)) (toLowerCase (trim query)) \<or>
             includes' (toLowerCase (description product)) (toLowerCase (trim query)))
           catalogue)"

text \<open>
  The password rule as the specification words it: at least 8 code units, with a lowercase
  letter, an uppercase letter and a digit among them.
\<close>

definition lowercase :: "nat \<Rightarrow> bool" where
  "lowercase c = in_ranges [(cu CHR ''a'', cu CHR ''z'')] c"

definition uppercase :: "nat \<Rightarrow> bool" where
  "uppercase c = in_ranges [(cu CHR ''A'', cu CHR ''Z'')] c"

definition decimal :: "nat \<Rightarrow> bool" where
  "decimal c = in_ranges [(cu CHR ''0'', cu CHR ''9'')] c"

definition password_spec :: "jsstring \<Rightarrow> bool" where
  "password_spec s =
     (8 \<le> length s \<and> list_ex lowercase s \<and> list_ex uppercase s \<and> list_ex decimal s)"

definition alphanumeric :: "nat \<Rightarrow> bool" where
  "alphanumeric c = (lowercase c \<or> uppercase c \<or> decimal c)"

text \<open>Values used in the examples.\<close>

definition optional_email :: rules where
  "optional_email = \<lparr>required = False, minLength = None, maxLength = None,
     pattern = Some Email, custom = None, customMessage = None\<rparr>"

definition strict_rules :: rules where
  "strict_rules = \<lparr>required = False, minLength = Some 3, maxLength = Some 1,
     pattern = Some Email, custom = Some (\<lambda>v. False), customMessage = None\<rparr>"

definition phone_catalogue :: product_manager where
  "phone_catalogue = \<lparr>products = [phone], filteredProducts = []\<rparr>"

definition email_form :: "jsstring \<rightharpoonup> jsstring" where
  "email_form = [js ''email'' \<mapsto> js ''a@b.com'']"

text \<open>
  For the round trip through JSON text: a value is \<open>plain\<close> when it holds no \<open>JReal\<close> and no
  object with a key given twice (the value of a cart entry list is); a text is \<open>delimited\<close>
  when it is empty or starts with a comma or a closing bracket, which is what follows a
  value inside the text of another; \<open>value_start\<close> holds of the code units a value's text
  can begin with.
\<close>

fun plain :: "json \<Rightarrow> bool"
  and plain_elements :: "json list \<Rightarrow> bool"
  and plain_members :: "(jsstring \<times> json) list \<Rightarrow> bool" where
  "plain JNull = True"
| "plain (JBool b) = True"
| "plain (JNum i) = True"
| "plain (JReal literal) = False"
| "plain (JStr s) = True"
| "plain (JArr xs) = plain_elements xs"
| "plain (JObj ms) = (distinct (map fst ms) \<and> plain_members ms)"
| "plain_elements [] = True"
| "plain_elements (x # xs) = (plain x \<and> plain_elements xs)"
| "plain_members [] = True"
| "plain_members (m # ms) = (plain (snd m) \<and> plain_members ms)"

definition delimited :: "jsstring \<Rightarrow> bool" where
  "delimited r = (case r of [] \<Rightarrow> True | c # _ \<Rightarrow> c = 44 \<or> c = 93 \<or> c = 125)"

definition value_start :: "nat \<Rightarrow> bool" where
  "value_start c =
     (c = 110 \<or> c = 116 \<or> c = 102 \<or> c = 45 \<or> is_digit c \<or> c = 34 \<or> c = 91 \<or> c = 123)"

text \<open>A cart with one entry, and storages, used in the examples.\<close>

definition one_phone :: cart where
  "one_phone = snd (addProduct (Some phone) empty_cart)"

definition storage_with :: "jsstring \<Rightarrow> storage" where
  "storage_with s = \<lparr>cell = Some s, read_fails = False, write_fails = False\<rparr>"

section \<open>Properties of the cart\<close>

lemma items_saveToStorage [simp]: "items (saveToStorage c) = items c"
  by (simp add: saveToStorage_def try_catch_def split: sum.splits)

lemma ids_update_first:
  "(\<And>x. id' (f x) = id' x) \<Longrightarrow> map id' (update_first P f xs) = map id' xs"
  by (induction xs) auto

lemma find_None_iff_ids: "find (\<lambda>item. id' item = i) xs = None \<longleftrightarrow> i \<notin> set (map id' xs)"
  by (induction xs) auto

lemma distinct_ids_filter: "distinct (map id' xs) \<Longrightarrow> distinct (map id' (filter P xs))"
  by (induction xs) auto

lemma distinct_addProduct:
  "distinct (map id' (items c)) \<Longrightarrow> distinct (map id' (items (snd (addProduct p c))))"
  by (auto simp: addProduct_def ids_update_first find_None_iff_ids product.defs
      split: option.splits)

lemma distinct_removeProduct:
  "distinct (map id' (items c)) \<Longrightarrow> distinct (map id' (items (snd (removeProduct i c))))"
  by (simp add: removeProduct_def Let_def distinct_ids_filter)

lemma distinct_updateQuantity:
  "distinct (map id' (items c)) \<Longrightarrow> distinct (map id' (items (snd (updateQuantity i q c))))"
  by (auto simp: updateQuantity_def distinct_removeProduct ids_update_first
      split: option.splits)

lemma distinct_perform:
  "distinct (map id' (items c)) \<Longrightarrow> distinct (map id' (items (perform x c)))"
  by (cases x) (simp_all add: distinct_addProduct distinct_removeProduct distinct_updateQuantity)

lemma distinct_run:
  "distinct (map id' (items c)) \<Longrightarrow> distinct (map id' (items (run xs c)))"
  by (induction xs arbitrary: c) (simp_all add: distinct_perform)

lemma foldl_plus_sum_list:
  "foldl (\<lambda>acc x. acc + f x) a xs = (a :: int) + sum_list (map f xs)"
  by (induction xs arbitrary: a) simp_all

text \<open>
  C1. Whatever sequence of add, remove and setQuantity calls is run on an empty cart, no
  two entries of the resulting cart have the same product id, \<open>calculateTotal\<close> is the sum
  of price times quantity over the entries, and \<open>getItemCount\<close> is the sum of the
  quantities.
\<close>

theorem cart_invariants:
  "items c = [] \<Longrightarrow>
     distinct (map id' (items (run calls c))) \<and>
     calculateTotal (run calls c) = (\<Sum>item \<leftarrow> items (run calls c). price item * quantity item) \<and>
     getItemCount (run calls c) = (\<Sum>item \<leftarrow> items (run calls c). quantity item)"
  by (simp add: distinct_run calculateTotal_def getItemCount_def foldl_plus_sum_list)

theorem cart_invariants_witness:
  "items empty_cart = [] \<and>
   distinct (map id' (items (run [Add (Some phone), Add (Some phone), SetQuantity 1 5] empty_cart))) \<and>
   calculateTotal (run [Add (Some phone), Add (Some phone), SetQuantity 1 5] empty_cart) = 499950 \<and>
   getItemCount (run [Add (Some phone), Add (Some phone), SetQuantity 1 5] empty_cart) = 5"
proof -
  let ?calls = "[Add (Some phone), Add (Some phone), SetQuantity 1 5]"
  have e: "items empty_cart = []"
    by (simp add: empty_cart_def)
  note t = cart_invariants [OF e, of ?calls]
  have r: "items (run ?calls empty_cart) = [product.extend phone (cart_item.fields 5)]"
    by (simp add: empty_cart_def phone_def addProduct_def updateQuantity_def validateProduct_def
        js_def product.defs cart_item.defs)
  from t have d: "distinct (map id' (items (run ?calls empty_cart)))"
    by blast
  from t have c: "calculateTotal (run ?calls empty_cart) = 499950"
    unfolding r by (simp add: phone_def product.defs cart_item.defs)
  from t have g: "getItemCount (run ?calls empty_cart) = 5"
    unfolding r by (simp add: product.defs cart_item.defs)
  from e d c g show ?thesis
    by blast
qed

lemma update_first_decomp:
  "\<forall>x\<in>set pre. \<not> P x \<Longrightarrow> P e \<Longrightarrow> update_first P f (pre @ e # post) = pre @ f e # post"
  by (induction pre) simp_all

lemma find_decomp:
  "\<forall>x\<in>set pre. \<not> P x \<Longrightarrow> P e \<Longrightarrow> find P (pre @ e # post) = Some e"
  by (induction pre) simp_all

lemma find_None_absent: "i \<notin> id' ` set xs \<Longrightarrow> find (\<lambda>item. id' item = i) xs = None"
  by (induction xs) auto

lemma removeProduct_absent:
  "i \<notin> id' ` set (items c) \<Longrightarrow> removeProduct i c = (False, c)"
proof -
  assume "i \<notin> id' ` set (items c)"
  then have "filter (\<lambda>item. id' item \<noteq> i) (items c) = items c"
    by (auto simp: filter_id_conv)
  then show ?thesis
    by (simp add: removeProduct_def Let_def)
qed

text \<open>
  C2. \<open>addProduct\<close> returns false and leaves the cart as it was unless the product is
  there, its id is truthy (not 0), its name is not empty and its price is above 0. When it
  succeeds it returns true and saves the cart, in which either the first entry with the
  product's id has its quantity raised by one, or, when there is no such entry, a new entry
  with quantity 1 is at the end. Adding a valid product to an empty cart gives one entry
  with quantity 1, adding it again gives one entry with quantity 2.
\<close>

theorem addProduct_spec:
  "(validateProduct p \<longleftrightarrow> (\<exists>q. p = Some q \<and> id' q \<noteq> 0 \<and> name q \<noteq> [] \<and> 0 < price q)) \<and>
   (\<not> validateProduct p \<longrightarrow> addProduct p c = (False, c)) \<and>
   (validateProduct (Some q) \<longrightarrow>
      fst (addProduct (Some q) c) \<and>
      (id' q \<in> id' ` set (items c) \<longrightarrow>
         (\<exists>pre e post. items c = pre @ e # post \<and> id' e = id' q \<and>
            (\<forall>x\<in>set pre. id' x \<noteq> id' q) \<and>
            snd (addProduct (Some q) c) =
              saveToStorage (c\<lparr>items := pre @ e\<lparr>quantity := quantity e + 1\<rparr> # post\<rparr>))) \<and>
      (id' q \<notin> id' ` set (items c) \<longrightarrow>
         snd (addProduct (Some q) c) =
           saveToStorage (c\<lparr>items := items c @ [product.extend q (cart_item.fields 1)]\<rparr>)) \<and>
      (items c = [] \<longrightarrow>
         items (snd (addProduct (Some q) c)) = [product.extend q (cart_item.fields 1)] \<and>
         items (snd (addProduct (Some q) (snd (addProduct (Some q) c)))) =
           [product.extend q (cart_item.fields 2)]))"
proof (intro conjI impI)
  show "validateProduct p \<longleftrightarrow> (\<exists>q. p = Some q \<and> id' q \<noteq> 0 \<and> name q \<noteq> [] \<and> 0 < price q)"
    by (cases p) (simp_all add: validateProduct_def)
next
  assume "\<not> validateProduct p"
  then show "addProduct p c = (False, c)"
    by (simp add: addProduct_def)
next
  assume "validateProduct (Some q)"
  then show "fst (addProduct (Some q) c)"
    by (simp add: addProduct_def split: option.splits)
next
  assume v: "validateProduct (Some q)" and "id' q \<in> id' ` set (items c)"
  then have "\<exists>x\<in>set (items c). id' x = id' q"
    by auto
  then obtain pre e post where d: "items c = pre @ e # post" "id' e = id' q"
    "\<forall>x\<in>set pre. \<not> id' x = id' q"
    using split_list_first_prop [of "items c" "\<lambda>x. id' x = id' q"] by blast
  have "snd (addProduct (Some q) c) =
      saveToStorage (c\<lparr>items := pre @ e\<lparr>quantity := quantity e + 1\<rparr> # post\<rparr>)"
    using v d by (simp add: addProduct_def find_decomp update_first_decomp)
  with d show "\<exists>pre e post. items c = pre @ e # post \<and> id' e = id' q \<and>
      (\<forall>x\<in>set pre. id' x \<noteq> id' q) \<and>
      snd (addProduct (Some q) c) =
        saveToStorage (c\<lparr>items := pre @ e\<lparr>quantity := quantity e + 1\<rparr> # post\<rparr>)"
    by blast
next
  assume v: "validateProduct (Some q)" and "id' q \<notin> id' ` set (items c)"
  then have "find (\<lambda>item. id' item = id' q) (items c) = None"
    by (simp add: find_None_absent)
  with v show "snd (addProduct (Some q) c) =
      saveToStorage (c\<lparr>items := items c @ [product.extend q (cart_item.fields 1)]\<rparr>)"
    by (simp add: addProduct_def)
next
  assume v: "validateProduct (Some q)" and e: "items c = []"
  then show "items (snd (addProduct (Some q) c)) = [product.extend q (cart_item.fields 1)]"
    by (simp add: addProduct_def)
next
  assume v: "validateProduct (Some q)" and e: "items c = []"
  then show "items (snd (addProduct (Some q) (snd (addProduct (Some q) c)))) =
      [product.extend q (cart_item.fields 2)]"
    by (simp add: addProduct_def product.defs cart_item.defs)
qed

theorem addProduct_spec_witness:
  "validateProduct (Some phone) \<and> \<not> validateProduct (Some (phone\<lparr>price := 0\<rparr>)) \<and>
   addProduct (Some (phone\<lparr>price := 0\<rparr>)) empty_cart = (False, empty_cart) \<and>
   items empty_cart = [] \<and>
   fst (addProduct (Some phone) empty_cart) \<and>
   map quantity (items (snd (addProduct (Some phone) empty_cart))) = [1] \<and>
   map quantity (items (snd (addProduct (Some phone) (snd (addProduct (Some phone) empty_cart))))) = [2]"
proof -
  have v: "validateProduct (Some phone)"
    by (simp add: validateProduct_def phone_def js_def)
  have n: "\<not> validateProduct (Some (phone\<lparr>price := 0\<rparr>))"
    by (simp add: validateProduct_def)
  have e: "items empty_cart = []"
    by (simp add: empty_cart_def)
  note s = addProduct_spec [of "Some (phone\<lparr>price := 0\<rparr>)" empty_cart phone]
  from s n have 1: "addProduct (Some (phone\<lparr>price := 0\<rparr>)) empty_cart = (False, empty_cart)"
    by blast
  from s v have 2: "fst (addProduct (Some phone) empty_cart)"
    by blast
  from s v e have 3: "items (snd (addProduct (Some phone) empty_cart)) =
      [product.extend phone (cart_item.fields 1)]"
    by blast
  from s v e have 4: "items (snd (addProduct (Some phone) (snd (addProduct (Some phone) empty_cart)))) =
      [product.extend phone (cart_item.fields 2)]"
    by blast
  show ?thesis
    using v n e 1 2 by (simp add: 3 4 product.defs cart_item.defs)
qed

text \<open>
  C3. \<open>updateQuantity\<close> with a quantity of 0 or less is \<open>removeProduct\<close>: same result, same
  cart. With a quantity above 0 it sets the quantity of the first entry with that id,
  saves and returns true. When no entry has the id it returns false and the cart is as it
  was, whatever the quantity.
\<close>

theorem updateQuantity_spec:
  "(qty \<le> 0 \<longrightarrow> updateQuantity i qty c = removeProduct i c) \<and>
   updateQuantity i 0 c = removeProduct i c \<and>
   (0 < qty \<longrightarrow>
      (\<forall>pre e post. items c = pre @ e # post \<and> id' e = i \<and> (\<forall>x\<in>set pre. id' x \<noteq> i) \<longrightarrow>
         updateQuantity i qty c =
           (True, saveToStorage (c\<lparr>items := pre @ e\<lparr>quantity := qty\<rparr> # post\<rparr>)))) \<and>
   (i \<notin> id' ` set (items c) \<longrightarrow> updateQuantity i qty c = (False, c))"
proof (intro conjI impI allI)
  show "updateQuantity i 0 c = removeProduct i c"
    by (simp add: updateQuantity_def)
next
  assume "qty \<le> 0"
  then show "updateQuantity i qty c = removeProduct i c"
    by (simp add: updateQuantity_def)
next
  fix pre e post
  assume "0 < qty"
    and "items c = pre @ e # post \<and> id' e = i \<and> (\<forall>x\<in>set pre. id' x \<noteq> i)"
  then show "updateQuantity i qty c =
      (True, saveToStorage (c\<lparr>items := pre @ e\<lparr>quantity := qty\<rparr> # post\<rparr>))"
    by (simp add: updateQuantity_def find_decomp update_first_decomp)
next
  assume a: "i \<notin> id' ` set (items c)"
  show "updateQuantity i qty c = (False, c)"
  proof (cases "qty \<le> 0")
    case True
    with a show ?thesis
      by (simp add: updateQuantity_def removeProduct_absent)
  next
    case False
    from a have "find (\<lambda>item. id' item = i) (items c) = None"
      by (simp add: find_None_absent)
    with False show ?thesis
      by (simp add: updateQuantity_def)
  qed
qed

theorem updateQuantity_spec_witness:
  "updateQuantity 1 (- 2) (snd (addProduct (Some phone) empty_cart)) =
     removeProduct 1 (snd (addProduct (Some phone) empty_cart)) \<and>
   items (snd (removeProduct 1 (snd (addProduct (Some phone) empty_cart)))) = [] \<and>
   map quantity (items (snd (updateQuantity 1 7 (snd (addProduct (Some phone) empty_cart))))) = [7] \<and>
   updateQuantity 2 7 (snd (addProduct (Some phone) empty_cart)) =
     (False, snd (addProduct (Some phone) empty_cart))"
proof -
  let ?c = "snd (addProduct (Some phone) empty_cart)"
  let ?e = "product.extend phone (cart_item.fields 1)"
  have i: "items ?c = [] @ ?e # []"
    by (simp add: addProduct_def validateProduct_def phone_def empty_cart_def js_def)
  have e: "id' ?e = 1"
    by (simp add: phone_def product.defs cart_item.defs)
  have r: "items (snd (removeProduct 1 ?c)) = []"
    using i e by (simp add: removeProduct_def Let_def)
  have a: "\<forall>pre e post. items ?c = pre @ e # post \<and> id' e = 1 \<and> (\<forall>x\<in>set pre. id' x \<noteq> 1) \<longrightarrow>
      updateQuantity 1 7 ?c = (True, saveToStorage (?c\<lparr>items := pre @ e\<lparr>quantity := 7\<rparr> # post\<rparr>))"
    using updateQuantity_spec [of 7 1 ?c] by simp
  have u: "updateQuantity 1 7 ?c =
      (True, saveToStorage (?c\<lparr>items := [] @ ?e\<lparr>quantity := 7\<rparr> # []\<rparr>))"
    using a [rule_format, of "[]" ?e "[]"] i e by simp
  have q: "map quantity (items (snd (updateQuantity 1 7 ?c))) = [7]"
    by (simp add: u)
  have n: "2 \<notin> id' ` set (items ?c)"
    using i e by simp
  show ?thesis
    using updateQuantity_spec [of "- 2" 1 ?c] updateQuantity_spec [of 7 2 ?c] r q n by simp
qed

section \<open>Properties of trimming and of the form validator\<close>

lemma dropWhile_all: "list_all P xs \<Longrightarrow> dropWhile P xs = []"
  by (induction xs) auto

lemma trim_whitespace_only: "list_all isWhiteSpace v \<Longrightarrow> trim v = []"
  by (simp add: trim_def dropWhile_all)

lemma dropWhile_snoc_keeps:
  "\<not> P x \<Longrightarrow> \<exists>ys. dropWhile P (zs @ [x]) = ys @ [x]"
  by (induction zs) auto

lemma trim_hd: "trim s = [] \<or> \<not> isWhiteSpace (hd (trim s))"
proof (cases "dropWhile isWhiteSpace s")
  case Nil
  show ?thesis
    by (simp add: trim_def Nil)
next
  case (Cons x xs)
  then have nx: "\<not> isWhiteSpace x"
    using hd_dropWhile [of isWhiteSpace s] by auto
  obtain ys where "dropWhile isWhiteSpace (rev xs @ [x]) = ys @ [x]"
    using dropWhile_snoc_keeps [of isWhiteSpace x "rev xs"] nx by auto
  then show ?thesis
    unfolding trim_def Cons by (simp add: nx)
qed

lemma trim_last: "trim s = [] \<or> \<not> isWhiteSpace (hd (rev (trim s)))"
  unfolding trim_def using hd_dropWhile [of isWhiteSpace "rev (dropWhile isWhiteSpace s)"]
  by auto

lemma trim_trim: "trim (trim s) = trim s"
proof -
  have 1: "dropWhile isWhiteSpace (trim s) = trim s"
    using trim_hd [of s] by (auto simp: dropWhile_eq_self_iff)
  have 2: "dropWhile isWhiteSpace (rev (trim s)) = rev (trim s)"
    using trim_last [of s] by (auto simp: dropWhile_eq_self_iff)
  show ?thesis
    using 1 2 by (simp add: trim_def)
qed

lemma first_error_chain:
  "first_error [a, b, c, d] =
     (case a of Some e \<Rightarrow> Some e | None \<Rightarrow> (case b of Some e \<Rightarrow> Some e | None \<Rightarrow>
       (case c of Some e \<Rightarrow> Some e | None \<Rightarrow> (case d of Some e \<Rightarrow> Some e | None \<Rightarrow> None))))"
  by (simp split: option.splits)

lemma check_minLength_eq: "check_minLength r v = length_below r v"
  by (auto simp: check_minLength_def length_below_def split: option.splits)

lemma check_maxLength_eq: "maxLength r \<noteq> Some 0 \<Longrightarrow> check_maxLength r v = length_above r v"
  by (auto simp: check_maxLength_def length_above_def split: option.splits)

lemma validateField_source_order:
  "maxLength r \<noteq> Some 0 \<Longrightarrow> validateField field r = source_order field r"
  by (simp add: validateField_def source_order_def first_error_chain check_minLength_eq
      check_maxLength_eq Let_def cong: option.case_cong)

lemma validateForm_loop_calls:
  "ui_calls (validateForm_loop form rs st) = ui_calls st @
     concat (map (\<lambda>(f, r). case form f of None \<Rightarrow> []
        | Some v \<Rightarrow> (case validateField v r of Some e \<Rightarrow> [ShowFieldError f e]
                      | None \<Rightarrow> [ClearFieldError f])) rs)"
  by (induction form rs st rule: validateForm_loop.induct) (auto split: option.splits)

lemma validateForm_loop_isValid:
  "isValid (validateForm_loop form rs st) \<longleftrightarrow>
     isValid st \<and> (\<forall>(f, r) \<in> set rs. \<forall>v. form f = Some v \<longrightarrow> validateField v r = None)"
  by (induction form rs st rule: validateForm_loop.induct) (auto split: option.splits)

lemma validateForm_loop_errors:
  "(isValid st \<longleftrightarrow> errors st = Map.empty) \<Longrightarrow>
   (isValid (validateForm_loop form rs st) \<longleftrightarrow> errors (validateForm_loop form rs st) = Map.empty)"
  by (induction form rs st rule: validateForm_loop.induct) (auto split: option.splits)

lemma validated_fields_eq:
  "validated_fields (validateForm form rs) = filter (\<lambda>f. form f \<noteq> None) (map fst rs)"
proof -
  have "map call_field (concat (map (\<lambda>(f, r). case form f of None \<Rightarrow> []
        | Some v \<Rightarrow> (case validateField v r of Some e \<Rightarrow> [ShowFieldError f e]
                      | None \<Rightarrow> [ClearFieldError f])) rs)) = filter (\<lambda>f. form f \<noteq> None) (map fst rs)"
    by (induction rs) (auto split: option.splits)
  then show ?thesis
    by (simp add: validated_fields_def validateForm_def validateForm_loop_calls)
qed

lemma search_eq:
  "fst (searchProducts query pm) =
     (if trim query = [] then products pm
      else filter (\<lambda>product.
             includes' (toLowerCase (name product)) (toLowerCase query) \<or>
             includes' (toLowerCase (description product)) (toLowerCase query)) (products pm))"
  by (simp add: searchProducts_def Let_def)

section \<open>Properties of the regular expression matcher\<close>

lemma one_simps [simp]:
  "one P [] = []"
  "one P (x # xs) = (if P x then [xs] else [])"
  by (simp_all add: one_def)

lemma set_one: "set (one P s) = {t. \<exists>c. s = c # t \<and> P c}"
  by (cases s) auto

lemma repeat_exactly_one:
  "set (repeat_exactly (one P) k s) = {t. \<exists>p. s = p @ t \<and> length p = k \<and> list_all P p}"
proof (induction k arbitrary: s)
  case 0
  show ?case by auto
next
  case (Suc k)
  show ?case
  proof (cases s)
    case Nil
    then show ?thesis by auto
  next
    case (Cons x xs)
    show ?thesis
    proof (intro set_eqI iffI)
      fix t assume "t \<in> set (repeat_exactly (one P) (Suc k) s)"
      then have px: "P x" and "t \<in> set (repeat_exactly (one P) k xs)"
        by (auto simp: Cons split: if_splits)
      then obtain p where "xs = p @ t" "length p = k" "list_all P p"
        using Suc.IH [of xs] by auto
      then have "s = (x # p) @ t \<and> length (x # p) = Suc k \<and> list_all P (x # p)"
        using px Cons by simp
      then show "t \<in> {t. \<exists>p. s = p @ t \<and> length p = Suc k \<and> list_all P p}"
        by blast
    next
      fix t assume "t \<in> {t. \<exists>p. s = p @ t \<and> length p = Suc k \<and> list_all P p}"
      then obtain p where p: "s = p @ t" "length p = Suc k" "list_all P p"
        by blast
      then obtain y q where q: "p = y # q"
        by (cases p) auto
      with p Cons have "y = x" "xs = q @ t" "length q = k" "list_all P q" "P x"
        by auto
      then have "t \<in> set (repeat_exactly (one P) k xs)"
        using Suc.IH [of xs] by auto
      then show "t \<in> set (repeat_exactly (one P) (Suc k) s)"
        using \<open>P x\<close> Cons by simp
    qed
  qed
qed

lemma repeat_more_one:
  "length s \<le> k \<Longrightarrow> set (repeat_more (one P) k s) = {t. \<exists>p. s = p @ t \<and> list_all P p}"
proof (induction k arbitrary: s)
  case 0
  then show ?case by auto
next
  case (Suc k)
  show ?case
  proof (cases s)
    case Nil
    then show ?thesis by auto
  next
    case (Cons x xs)
    then have len: "length xs \<le> k"
      using Suc.prems by simp
    have ih: "set (repeat_more (one P) k xs) = {t. \<exists>p. xs = p @ t \<and> list_all P p}"
      using Suc.IH [OF len] .
    show ?thesis
    proof (intro set_eqI iffI)
      fix t assume "t \<in> set (repeat_more (one P) (Suc k) s)"
      then consider "t = s" | "P x" "t \<in> set (repeat_more (one P) k xs)"
        by (auto simp: Cons split: if_splits)
      then show "t \<in> {t. \<exists>p. s = p @ t \<and> list_all P p}"
      proof cases
        case 1
        then have "s = [] @ t \<and> list_all P []" by simp
        then show ?thesis by blast
      next
        case 2
        then obtain p where "xs = p @ t" "list_all P p"
          using ih by auto
        then have "s = (x # p) @ t \<and> list_all P (x # p)"
          using 2 Cons by simp
        then show ?thesis by blast
      qed
    next
      fix t assume "t \<in> {t. \<exists>p. s = p @ t \<and> list_all P p}"
      then obtain p where p: "s = p @ t" "list_all P p"
        by blast
      show "t \<in> set (repeat_more (one P) (Suc k) s)"
      proof (cases p)
        case Nil
        with p show ?thesis by (simp add: Cons)
      next
        case (Cons y q)
        with p \<open>s = x # xs\<close> have "y = x" "xs = q @ t" "list_all P q" "P x"
          by auto
        then have "t \<in> set (repeat_more (one P) k xs)"
          using ih by auto
        then show ?thesis
          using \<open>P x\<close> \<open>s = x # xs\<close> by simp
      qed
    qed
  qed
qed

lemma ends_Quant_one:
  assumes "ends r n = one P"
  shows "set (ends (Quant lo None r) n s) =
     {t. \<exists>p. s = p @ t \<and> lo \<le> length p \<and> list_all P p}"
proof (intro set_eqI iffI)
  fix t assume "t \<in> set (ends (Quant lo None r) n s)"
  then obtain u where u: "u \<in> set (repeat_exactly (one P) lo s)"
    and t: "t \<in> set (repeat_more (one P) (length u) u)"
    using assms by auto
  from u obtain p where p: "s = p @ u" "length p = lo" "list_all P p"
    by (auto simp: repeat_exactly_one)
  from t obtain q where q: "u = q @ t" "list_all P q"
    by (auto simp: repeat_more_one)
  from p q have "s = (p @ q) @ t \<and> lo \<le> length (p @ q) \<and> list_all P (p @ q)"
    by simp
  then show "t \<in> {t. \<exists>p. s = p @ t \<and> lo \<le> length p \<and> list_all P p}"
    by blast
next
  fix t assume "t \<in> {t. \<exists>p. s = p @ t \<and> lo \<le> length p \<and> list_all P p}"
  then obtain p where p: "s = p @ t" "lo \<le> length p" "list_all P p"
    by blast
  define u where "u = drop lo p @ t"
  have "s = take lo p @ u \<and> length (take lo p) = lo \<and> list_all P (take lo p)"
    using p by (auto simp: u_def list_all_iff dest: in_set_takeD)
  then have u: "u \<in> set (repeat_exactly (one P) lo s)"
    unfolding repeat_exactly_one by blast
  have "u = drop lo p @ t \<and> list_all P (drop lo p)"
    using p by (auto simp: u_def list_all_iff dest: in_set_dropD)
  then have "t \<in> {t. \<exists>q. u = q @ t \<and> list_all P q}"
    by blast
  then have tm: "t \<in> set (repeat_more (one P) (length u) u)"
    by (simp add: repeat_more_one)
  from u tm show "t \<in> set (ends (Quant lo None r) n s)"
    using assms by auto
qed

lemma suffixes_length: "t \<in> set (suffixes s) \<Longrightarrow> length t \<le> length s"
  by (induction s) auto

lemma suffixes_same_length:
  "list_ex (\<lambda>t. length t = length s \<and> Q t) (suffixes s) = Q s"
proof (cases s)
  case Nil
  then show ?thesis by simp
next
  case (Cons x xs)
  have "\<not> list_ex (\<lambda>t. length t = length (x # xs) \<and> Q t) (suffixes xs)"
    using suffixes_length [of _ xs] by (fastforce simp: list_ex_iff)
  then show ?thesis
    by (simp add: Cons)
qed

lemma test_anchored: "test (Seq Bol r) s = (ends r (length s) s \<noteq> [])"
proof -
  have "ends (Seq Bol r) (length s) t \<noteq> [] \<longleftrightarrow> length t = length s \<and> ends r (length s) t \<noteq> []"
    for t
    by simp
  then have "test (Seq Bol r) s =
      list_ex (\<lambda>t. length t = length s \<and> ends r (length s) t \<noteq> []) (suffixes s)"
    unfolding test_def by simp
  also have "\<dots> = (ends r (length s) s \<noteq> [])"
    by (rule suffixes_same_length)
  finally show ?thesis .
qed

lemma ends_Class_one: "ends (Class negated rs) n = one (\<lambda>x. in_ranges rs x \<noteq> negated)"
  by (rule ext) simp

lemma ends_Dot_one: "ends Dot n = one (\<lambda>x. \<not> line_terminator x)"
  by (rule ext) simp

text \<open>A lookahead \<open>(?=.*[...])\<close>: some code unit of the class, with no line terminator before it.\<close>

lemma lookahead_dots_class:
  "ends (Lookahead (Seq (Quant 0 None Dot) (Class False rs))) n s \<noteq> [] \<longleftrightarrow>
     (\<exists>p c t. s = p @ c # t \<and> list_all (\<lambda>x. \<not> line_terminator x) p \<and> in_ranges rs c)"
proof -
  have "ends (Lookahead (Seq (Quant 0 None Dot) (Class False rs))) n s \<noteq> [] \<longleftrightarrow>
      set (ends (Seq (Quant 0 None Dot) (Class False rs)) n s) \<noteq> {}"
    by simp
  also have "\<dots> \<longleftrightarrow> (\<exists>u \<in> set (ends (Quant 0 None Dot) n s). set (one (\<lambda>x. in_ranges rs x) u) \<noteq> {})"
    by (simp del: ends.simps(6) add: ends_Class_one)
  also have "\<dots> \<longleftrightarrow> (\<exists>p c t. s = p @ c # t \<and> list_all (\<lambda>x. \<not> line_terminator x) p \<and> in_ranges rs c)"
    unfolding ends_Quant_one [OF ends_Dot_one] set_one by auto
  finally show ?thesis .
qed

lemma ends_Seq_Lookahead:
  "ends (Seq (Lookahead a) r) n s \<noteq> [] \<longleftrightarrow>
     ends (Lookahead a) n s \<noteq> [] \<and> ends r n s \<noteq> []"
  by simp

lemma ends_Seq_Eol:
  "ends (Seq q (Seq Eol Empty)) n s \<noteq> [] \<longleftrightarrow> [] \<in> set (ends q n s)"
proof -
  have "set (ends (Seq Eol Empty) n t) = (if t = [] then {[]} else {})" for t
    by simp
  then have "set (ends (Seq q (Seq Eol Empty)) n s) = (\<Union>t\<in>set (ends q n s). if t = [] then {[]} else {})"
    by (simp del: ends.simps(6))
  then have "set (ends (Seq q (Seq Eol Empty)) n s) \<noteq> {} \<longleftrightarrow> [] \<in> set (ends q n s)"
    by auto
  then show ?thesis
    by (simp only: set_empty)
qed

lemma alphanumeric_ranges:
  "in_ranges [(cu CHR ''a'', cu CHR ''z''), (cu CHR ''A'', cu CHR ''Z''), (cu CHR ''0'', cu CHR ''9'')] c
     = alphanumeric c"
  by (auto simp: alphanumeric_def lowercase_def uppercase_def decimal_def in_ranges_def)

lemma alphanumeric_not_terminator: "alphanumeric c \<Longrightarrow> \<not> line_terminator c"
  by (auto simp: alphanumeric_def lowercase_def uppercase_def decimal_def in_ranges_def
      line_terminator_def cu_def)

lemma look_iff_list_ex:
  assumes "list_all alphanumeric s"
  shows "(\<exists>p c t. s = p @ c # t \<and> list_all (\<lambda>x. \<not> line_terminator x) p \<and> Q c) \<longleftrightarrow> list_ex Q s"
proof
  assume "\<exists>p c t. s = p @ c # t \<and> list_all (\<lambda>x. \<not> line_terminator x) p \<and> Q c"
  then show "list_ex Q s"
    by (auto simp: list_ex_iff)
next
  assume "list_ex Q s"
  then obtain p c t where s: "s = p @ c # t" "Q c"
    by (auto simp: list_ex_iff dest: split_list)
  with assms have "list_all (\<lambda>x. \<not> line_terminator x) p"
    by (auto simp: list_all_iff alphanumeric_not_terminator)
  with s show "\<exists>p c t. s = p @ c # t \<and> list_all (\<lambda>x. \<not> line_terminator x) p \<and> Q c"
    by blast
qed

lemma password_test_iff:
  "test (patterns Password) s \<longleftrightarrow> password_spec s \<and> list_all alphanumeric s"
proof -
  let ?n = "length s"
  let ?L = "\<lambda>rs. Lookahead (Seq (Quant 0 None Dot) (Class False rs))"
  let ?Q = "Quant 8 None (Class False
          [(cu CHR ''a'', cu CHR ''z''), (cu CHR ''A'', cu CHR ''Z''), (cu CHR ''0'', cu CHR ''9'')])"
  let ?look = "\<lambda>Q. \<exists>p c t. s = p @ c # t \<and> list_all (\<lambda>x. \<not> line_terminator x) p \<and> Q c"
  have pat: "patterns Password = Seq Bol (Seq (?L [(cu CHR ''a'', cu CHR ''z'')])
      (Seq (?L [(cu CHR ''A'', cu CHR ''Z'')]) (Seq (?L [(cu CHR ''0'', cu CHR ''9'')])
        (Seq ?Q (Seq Eol Empty)))))"
    by (simp add: patterns_def seq_def digit_def)
  have q: "ends (Seq ?Q (Seq Eol Empty)) ?n s \<noteq> [] \<longleftrightarrow> 8 \<le> length s \<and> list_all alphanumeric s"
    unfolding ends_Seq_Eol ends_Quant_one [OF ends_Class_one]
    by (simp add: alphanumeric_ranges)
  have "test (patterns Password) s \<longleftrightarrow>
      ?look lowercase \<and> ?look uppercase \<and> ?look decimal \<and> 8 \<le> length s \<and> list_all alphanumeric s"
    by (simp only: pat test_anchored ends_Seq_Lookahead lookahead_dots_class q
        lowercase_def uppercase_def decimal_def conj_assoc)
  also have "\<dots> \<longleftrightarrow> password_spec s \<and> list_all alphanumeric s"
    using look_iff_list_ex [of s] by (auto simp: password_spec_def)
  finally show ?thesis .
qed

lemma repeat_exactly_numeral:
  "repeat_exactly f (numeral k) s = concat (map (repeat_exactly f (pred_numeral k)) (f s))"
  by (simp add: numeral_eq_Suc)

lemmas regex_eval = patterns_def seq_def not_space_or_at_def digit_def optional_def js_def cu_def
  whitespace_def in_ranges_def repeat_exactly_numeral

lemma email_examples:
  "\<not> test (patterns Email) (js ''not-an-email'')"
  "test (patterns Email) (js ''a@b.com'')"
  "\<not> test (patterns Email) []"
  unfolding patterns_def seq_def pattern_name.case foldr.simps o_apply test_anchored
  by (simp_all add: regex_eval)

lemma trim_examples:
  "trim (js ''not-an-email'') = js ''not-an-email''"
  "trim (js ''a@b.com'') = js ''a@b.com''"
  "trim (js '''') = []"
  "trim (js ''   '') = []"
  "trim (js ''pro '') = js ''pro''"
  "trim (js ''PRO'') = js ''PRO''"
  by (simp_all add: trim_def isWhiteSpace_def whitespace_def in_ranges_def js_def)

section \<open>The claims about validation and search\<close>

lemma js_eq_Nil: "js s = [] \<longleftrightarrow> s = []"
  by (simp add: js_def)

lemma validateField_email_rules:
  "validateField field email_rules =
     (if trim field = [] then Some RequiredMessage
      else if test (patterns Email) (trim field) then None else Some (PatternMessage Email))"
  by (simp add: validateField_def email_rules_def check_minLength_def check_maxLength_def
      check_pattern_def check_custom_def Let_def)

lemma validateField_email_examples:
  "validateField (js ''not-an-email'') email_rules = Some (PatternMessage Email)"
  "validateField (js ''a@b.com'') email_rules = None"
  "validateField (js '''') email_rules = Some RequiredMessage"
  by (simp_all add: validateField_email_rules trim_examples email_examples js_eq_Nil)

text \<open>
  The order as the specification lists it has no step for an empty value that is not
  required: on an optional email field left empty the source reports no error, while the
  listed order reaches the pattern check and reports the email error.
\<close>

theorem validateField_order_counterexample:
  "validateField (js '''') optional_email = None \<and>
   spec_order (js '''') optional_email = Some (PatternMessage Email)"
  by (simp add: validateField_def spec_order_def trim_examples optional_email_def
      required_empty_def length_below_def length_above_def check_pattern_def email_examples Let_def)

text \<open>
  C6 (amended). Whenever the rules' maximum length is not 0, \<open>validateField\<close> trims the
  value and stops at the first of: required and empty (the required error); empty (valid);
  shorter than the minimum; longer than the maximum; pattern mismatch; custom predicate
  false; else valid. With \<open>{required: true, pattern: "email"}\<close>, \<open>not-an-email\<close> gives the
  email error, \<open>a@b.com\<close> gives no error and the empty value gives the required error.
\<close>

theorem validateField_order:
  "(maxLength r \<noteq> Some 0 \<longrightarrow> validateField field r = source_order field r) \<and>
   validateField (js ''not-an-email'') email_rules = Some (PatternMessage Email) \<and>
   validateField (js ''a@b.com'') email_rules = None \<and>
   validateField (js '''') email_rules = Some RequiredMessage"
  by (simp add: validateField_source_order validateField_email_examples)

theorem validateField_order_witness:
  "maxLength email_rules \<noteq> Some 0 \<and>
   validateField (js ''a@b.com'') email_rules = source_order (js ''a@b.com'') email_rules \<and>
   source_order (js ''a@b.com'') email_rules = None"
proof -
  have m: "maxLength email_rules \<noteq> Some 0"
    by (simp add: email_rules_def)
  from validateField_order [of email_rules "js ''a@b.com''"] m
  have "validateField (js ''a@b.com'') email_rules = source_order (js ''a@b.com'') email_rules"
    and "validateField (js ''a@b.com'') email_rules = None"
    by blast+
  with m show ?thesis
    by simp
qed

text \<open>
  \<open>Passw0rd!\<close> has nine code units with a lowercase letter, an uppercase letter and a
  digit, and the pattern rejects it: the exclamation mark is not in \<open>[a-zA-Z\d]\<close>.
\<close>

theorem password_counterexample:
  "password_spec (js ''Passw0rd!'') \<and> \<not> test (patterns Password) (js ''Passw0rd!'')"
  unfolding password_test_iff
  by (simp add: password_spec_def alphanumeric_def lowercase_def uppercase_def decimal_def
      in_ranges_def js_def cu_def)

text \<open>
  C7 (amended). The password pattern accepts exactly the strings of at least 8 code units
  that contain a lowercase letter, an uppercase letter and a digit and consist of ASCII
  letters and digits only; it rejects every other string.
\<close>

theorem password_pattern_exact:
  "test (patterns Password) s \<longleftrightarrow> password_spec s \<and> list_all alphanumeric s"
  by (rule password_test_iff)

theorem password_pattern_exact_witness:
  "test (patterns Password) (js ''Passw0rd'') \<and> \<not> test (patterns Password) (js ''password'')"
proof -
  have "password_spec (js ''Passw0rd'') \<and> list_all alphanumeric (js ''Passw0rd'')"
    by (simp add: password_spec_def alphanumeric_def lowercase_def uppercase_def decimal_def
        in_ranges_def js_def cu_def)
  moreover have "\<not> password_spec (js ''password'')"
    by (simp add: password_spec_def alphanumeric_def lowercase_def uppercase_def decimal_def
        in_ranges_def js_def cu_def)
  ultimately show ?thesis
    using password_pattern_exact [of "js ''Passw0rd''"] password_pattern_exact [of "js ''password''"]
    by blast
qed

lemma toLowerCase_examples:
  "toLowerCase (js ''pro '') = js ''pro ''"
  "toLowerCase (js ''pro'') = js ''pro''"
  "toLowerCase (js ''PRO'') = js ''pro''"
  "toLowerCase (name phone) = js ''iphone 14 pro''"
  "toLowerCase (description phone) = js ''apple''"
  by (simp_all add: toLowerCase_def lower_unit_def in_ranges_def js_def phone_def)

lemma includes_examples:
  "\<not> includes' (js ''iphone 14 pro'') (js ''pro '')"
  "\<not> includes' (js ''apple'') (js ''pro '')"
  "includes' (js ''iphone 14 pro'') (js ''pro'')"
  by (simp_all add: js_def)

text \<open>
  The query \<open>"pro "\<close> (with a space at its end) trims to \<open>pro\<close>, which the name
  \<open>iPhone 14 Pro\<close> contains; the source looks for the query as given and finds nothing.
\<close>

theorem searchProducts_counterexample:
  "fst (searchProducts (js ''pro '') phone_catalogue) = [] \<and>
   search_spec (js ''pro '') (products phone_catalogue) = [phone]"
  by (simp add: search_eq search_spec_def phone_catalogue_def trim_examples toLowerCase_examples
      includes_examples js_eq_Nil)

text \<open>
  C8 (amended). \<open>searchProducts\<close> returns, in catalogue order, the products whose lowercased
  name or description contains the lowercased query as it is given, not trimmed; the
  result is also stored as the filtered view. A query that trims to nothing (empty or
  white space only) returns the whole catalogue. For a query that has no white space at
  either end this is the search of the specification.
\<close>

theorem searchProducts_spec:
  "fst (searchProducts query pm) =
     (if trim query = [] then products pm
      else filter (\<lambda>product.
             includes' (toLowerCase (name product)) (toLowerCase query) \<or>
             includes' (toLowerCase (description product)) (toLowerCase query)) (products pm)) \<and>
   filteredProducts (snd (searchProducts query pm)) = fst (searchProducts query pm) \<and>
   (list_all isWhiteSpace query \<longrightarrow> fst (searchProducts query pm) = products pm) \<and>
   (trim query = query \<longrightarrow> fst (searchProducts query pm) = search_spec query (products pm))"
proof (intro conjI impI)
  show "filteredProducts (snd (searchProducts query pm)) = fst (searchProducts query pm)"
    by (simp add: searchProducts_def Let_def)
next
  assume "list_all isWhiteSpace query"
  then show "fst (searchProducts query pm) = products pm"
    by (simp add: search_eq trim_whitespace_only)
next
  assume "trim query = query"
  then show "fst (searchProducts query pm) = search_spec query (products pm)"
    by (simp add: search_eq search_spec_def)
qed (rule search_eq)

theorem searchProducts_spec_witness:
  "trim (js ''PRO'') = js ''PRO'' \<and> fst (searchProducts (js ''PRO'') phone_catalogue) = [phone] \<and>
   list_all isWhiteSpace (js ''  '') \<and> fst (searchProducts (js ''  '') phone_catalogue) = [phone]"
proof -
  have t: "trim (js ''PRO'') = js ''PRO''"
    by (rule trim_examples)
  have w: "list_all isWhiteSpace (js ''  '')"
    by (simp add: isWhiteSpace_def whitespace_def in_ranges_def js_def)
  have s: "search_spec (js ''PRO'') (products phone_catalogue) = [phone]"
    by (simp add: search_spec_def phone_catalogue_def trim_examples toLowerCase_examples
        includes_examples js_eq_Nil)
  from searchProducts_spec [of "js ''PRO''" phone_catalogue] t
  have "fst (searchProducts (js ''PRO'') phone_catalogue) =
      search_spec (js ''PRO'') (products phone_catalogue)"
    by blast
  with s have 1: "fst (searchProducts (js ''PRO'') phone_catalogue) = [phone]"
    by simp
  from searchProducts_spec [of "js ''  ''" phone_catalogue] w
  have "fst (searchProducts (js ''  '') phone_catalogue) = products phone_catalogue"
    by blast
  then have 2: "fst (searchProducts (js ''  '') phone_catalogue) = [phone]"
    by (simp add: phone_catalogue_def)
  from t w 1 2 show ?thesis
    by blast
qed

text \<open>
  A field that the rules declare and the form does not have is not validated: with the
  rules of a required email field and a form without that field, no field is validated
  and the form is reported valid.
\<close>

theorem validateForm_counterexample:
  "validated_fields (validateForm Map.empty [(js ''email'', email_rules)]) \<noteq>
     map fst [(js ''email'', email_rules)] \<and>
   isValid (validateForm Map.empty [(js ''email'', email_rules)])"
  by (simp add: validated_fields_def validateForm_def)

text \<open>
  C9 (amended). \<open>validateForm\<close> runs \<open>validateField\<close> once on every declared field that
  the form has, in the order of the rules, showing its error or clearing it, and skips a
  declared field that the form does not have; when the form has every declared field,
  every declared field is validated. The result is valid if and only if none of the
  validated fields produced an error, which is when the \<open>errors\<close> object is empty.
\<close>

theorem validateForm_spec:
  "ui_calls (validateForm form rs) =
     concat (map (\<lambda>(f, r). case form f of None \<Rightarrow> []
        | Some v \<Rightarrow> (case validateField v r of Some e \<Rightarrow> [ShowFieldError f e]
                      | None \<Rightarrow> [ClearFieldError f])) rs) \<and>
   validated_fields (validateForm form rs) = filter (\<lambda>f. form f \<noteq> None) (map fst rs) \<and>
   ((\<forall>f \<in> set (map fst rs). form f \<noteq> None) \<longrightarrow>
      validated_fields (validateForm form rs) = map fst rs) \<and>
   (isValid (validateForm form rs) \<longleftrightarrow>
      (\<forall>(f, r) \<in> set rs. \<forall>v. form f = Some v \<longrightarrow> validateField v r = None)) \<and>
   (isValid (validateForm form rs) \<longleftrightarrow> errors (validateForm form rs) = Map.empty)"
proof (intro conjI impI)
  show "ui_calls (validateForm form rs) =
     concat (map (\<lambda>(f, r). case form f of None \<Rightarrow> []
        | Some v \<Rightarrow> (case validateField v r of Some e \<Rightarrow> [ShowFieldError f e]
                      | None \<Rightarrow> [ClearFieldError f])) rs)"
    by (simp add: validateForm_def validateForm_loop_calls)
next
  show "validated_fields (validateForm form rs) = filter (\<lambda>f. form f \<noteq> None) (map fst rs)"
    by (rule validated_fields_eq)
next
  assume "\<forall>f \<in> set (map fst rs). form f \<noteq> None"
  then have "filter (\<lambda>f. form f \<noteq> None) (map fst rs) = map fst rs"
    by (simp add: filter_id_conv)
  then show "validated_fields (validateForm form rs) = map fst rs"
    by (simp add: validated_fields_eq)
next
  show "isValid (validateForm form rs) \<longleftrightarrow>
      (\<forall>(f, r) \<in> set rs. \<forall>v. form f = Some v \<longrightarrow> validateField v r = None)"
    by (simp add: validateForm_def validateForm_loop_isValid)
next
  show "isValid (validateForm form rs) \<longleftrightarrow> errors (validateForm form rs) = Map.empty"
    unfolding validateForm_def by (rule validateForm_loop_errors) simp
qed

theorem validateForm_spec_witness:
  "validated_fields (validateForm email_form [(js ''email'', email_rules)]) = [js ''email''] \<and>
   isValid (validateForm email_form [(js ''email'', email_rules)]) \<and>
   \<not> isValid (validateForm [js ''email'' \<mapsto> js ''not-an-email''] [(js ''email'', email_rules)])"
proof -
  note t = validateForm_spec [of email_form "[(js ''email'', email_rules)]"]
  note u = validateForm_spec [of "[js ''email'' \<mapsto> js ''not-an-email'']" "[(js ''email'', email_rules)]"]
  have p: "\<forall>f \<in> set (map fst [(js ''email'', email_rules)]). email_form f \<noteq> None"
    by (simp add: email_form_def)
  from t p have 1: "validated_fields (validateForm email_form [(js ''email'', email_rules)]) = [js ''email'']"
    by simp
  have "\<forall>(f, r) \<in> set [(js ''email'', email_rules)]. \<forall>v. email_form f = Some v \<longrightarrow> validateField v r = None"
    by (simp add: email_form_def validateField_email_examples)
  with t have 2: "isValid (validateForm email_form [(js ''email'', email_rules)])"
    by blast
  have "\<not> (\<forall>(f, r) \<in> set [(js ''email'', email_rules)].
      \<forall>v. [js ''email'' \<mapsto> js ''not-an-email''] f = Some v \<longrightarrow> validateField v r = None)"
    by (simp add: validateField_email_examples)
  with u have 3: "\<not> isValid (validateForm [js ''email'' \<mapsto> js ''not-an-email''] [(js ''email'', email_rules)])"
    by blast
  from 1 2 3 show ?thesis
    by blast
qed

text \<open>
  C10. \<open>validateField\<close> works on the trimmed value: the result for a value is the result
  for its trimmed form. When the rules do not require the field, a value that trims to
  nothing is valid whatever minimum length, maximum length, pattern and custom predicate
  the rules carry; when they require it, a value of white space only gives the required
  error.
\<close>

theorem validateField_trims:
  "(\<not> required r \<and> trim field = [] \<longrightarrow> validateField field r = None) \<and>
   (required r \<and> list_all isWhiteSpace field \<longrightarrow> validateField field r = Some RequiredMessage) \<and>
   validateField field r = validateField (trim field) r"
  by (simp add: validateField_def trim_whitespace_only trim_trim)

theorem validateField_trims_witness:
  "\<not> required strict_rules \<and> trim (js ''   '') = [] \<and> validateField (js ''   '') strict_rules = None \<and>
   required email_rules \<and> list_all isWhiteSpace (js ''   '') \<and>
   validateField (js ''   '') email_rules = Some RequiredMessage"
proof -
  have a: "\<not> required strict_rules" "required email_rules"
    by (simp_all add: strict_rules_def email_rules_def)
  have b: "trim (js ''   '') = []"
    by (rule trim_examples)
  have c: "list_all isWhiteSpace (js ''   '')"
    by (simp add: isWhiteSpace_def whitespace_def in_ranges_def js_def)
  from validateField_trims [of strict_rules "js ''   ''"] a b
  have 1: "validateField (js ''   '') strict_rules = None"
    by blast
  from validateField_trims [of email_rules "js ''   ''"] a c
  have 2: "validateField (js ''   '') email_rules = Some RequiredMessage"
    by blast
  from a b c 1 2 show ?thesis
    by blast
qed

section \<open>Properties of the JSON text\<close>

lemma digits_nonempty: "digits n \<noteq> []"
  by (induction n rule: digits.induct) (subst digits.simps, simp)

lemma digits_all: "list_all is_digit (digits n)"
proof (induction n rule: digits.induct)
  case (1 n)
  show ?case
  proof (cases "n < 10")
    case True
    then show ?thesis by (subst digits.simps) (simp add: is_digit_def)
  next
    case False
    have "n mod 10 < 10" by simp
    then have "is_digit (48 + n mod 10)"
      unfolding is_digit_def by linarith
    with False 1 show ?thesis
      by (subst digits.simps) simp
  qed
qed

lemma digits_value_snoc: "digits_value (ds @ [d]) = 10 * digits_value ds + (d - 48)"
  by (simp add: digits_value_def)

lemma digits_value_digits: "digits_value (digits n) = n"
proof (induction n rule: digits.induct)
  case (1 n)
  show ?case
  proof (cases "n < 10")
    case True
    then show ?thesis by (subst digits.simps) (simp add: digits_value_def)
  next
    case False
    with 1 show ?thesis
      by (subst digits.simps) (simp add: digits_value_snoc)
  qed
qed

lemma digits_hd: "hd (digits n) = 48 \<longleftrightarrow> n = 0"
proof (induction n rule: digits.induct)
  case (1 n)
  show ?case
  proof (cases "n < 10")
    case True
    then show ?thesis by (subst digits.simps) simp
  next
    case False
    then have "n div 10 \<noteq> 0" by simp
    with False 1 show ?thesis
      by (subst digits.simps) (simp add: digits_nonempty)
  qed
qed

lemma digits_zero: "digits 0 = [48]"
  by (simp add: digits.simps)

lemma digits_no_leading_zero: "\<not> (hd (digits n) = 48 \<and> 1 < length (digits n))"
  by (cases "n = 0") (simp_all add: digits_hd digits_zero)

lemma not_digit_delimited: "delimited r \<Longrightarrow> r = [] \<or> \<not> is_digit (hd r)"
  by (auto simp: delimited_def is_digit_def split: list.splits)

lemma takeWhile_digits:
  "delimited r \<Longrightarrow> takeWhile is_digit (digits n @ r) = digits n"
  using digits_all [of n] not_digit_delimited [of r]
  by (cases r) (auto simp: takeWhile_append list_all_iff takeWhile_eq_all_conv)

lemma dropWhile_digits:
  "delimited r \<Longrightarrow> dropWhile is_digit (digits n @ r) = r"
  using digits_all [of n] not_digit_delimited [of r]
  by (cases r) (auto simp: dropWhile_append list_all_iff)

lemma fraction_delimited: "delimited r \<Longrightarrow> fraction r = Some ([], r)"
  by (auto simp: fraction_def delimited_def split: list.splits)

lemma exponent_delimited: "delimited r \<Longrightarrow> exponent r = Some ([], r)"
  by (auto simp: exponent_def delimited_def split: list.splits)

lemma digits_hd_digit: "is_digit (hd (digits n))"
  using digits_all [of n] digits_nonempty [of n]
  by (cases "digits n") auto

lemma parse_number_digits:
  assumes "delimited r"
  shows "parse_number (digits n @ r) = Some (JNum (int n), r)"
proof -
  obtain c cs where d: "digits n = c # cs"
    using digits_nonempty [of n] by (cases "digits n") auto
  have c: "c \<noteq> 45"
    using digits_hd_digit [of n] d by (auto simp: is_digit_def)
  have tw: "takeWhile is_digit (c # cs @ r) = c # cs" "dropWhile is_digit (c # cs @ r) = r"
    using takeWhile_digits [OF assms, of n] dropWhile_digits [OF assms, of n] d by simp_all
  have nz: "\<not> (c = 48 \<and> 1 < length (c # cs))"
    using digits_no_leading_zero [of n] d by simp
  have v: "digits_value (c # cs) = n"
    using digits_value_digits [of n] d by simp
  show ?thesis
    unfolding d parse_number_def using c nz
    by (simp add: tw v fraction_delimited [OF assms] exponent_delimited [OF assms] Let_def
        del: takeWhile.simps dropWhile.simps)
qed

lemma parse_number_minus_digits:
  assumes "delimited r" "0 < n"
  shows "parse_number (45 # digits n @ r) = Some (JNum (- int n), r)"
proof -
  obtain c cs where d: "digits n = c # cs"
    using digits_nonempty [of n] by (cases "digits n") auto
  have tw: "takeWhile is_digit (c # cs @ r) = c # cs" "dropWhile is_digit (c # cs @ r) = r"
    using takeWhile_digits [OF assms(1), of n] dropWhile_digits [OF assms(1), of n] d by simp_all
  have nz: "\<not> (c = 48 \<and> 1 < length (c # cs))"
    using digits_no_leading_zero [of n] d by simp
  have v: "digits_value (c # cs) = n"
    using digits_value_digits [of n] d by simp
  show ?thesis
    unfolding d parse_number_def using nz
    by (simp add: tw v fraction_delimited [OF assms(1)] exponent_delimited [OF assms(1)] Let_def
        del: takeWhile.simps dropWhile.simps)
qed

lemma parse_number_text:
  "delimited r \<Longrightarrow> parse_number (number_text i @ r) = Some (JNum i, r)"
  by (simp add: number_text_def parse_number_digits parse_number_minus_digits)

lemma hex_value_hex_digit: "d < 16 \<Longrightarrow> hex_value (hex_digit d) = Some d"
  by (auto simp: hex_value_def hex_digit_def)

lemma hex4_low:
  assumes "c < 32"
  shows "hex4 (hex_digit 0) (hex_digit 0) (hex_digit (c div 16)) (hex_digit (c mod 16)) = Some c"
proof -
  have b: "c div 16 < 16" "c mod 16 < 16"
    using assms by simp_all
  have "hex4 (hex_digit 0) (hex_digit 0) (hex_digit (c div 16)) (hex_digit (c mod 16)) =
      Some (c div 16 * 16 + c mod 16)"
    unfolding hex4_def using b by (simp add: hex_value_hex_digit)
  then show ?thesis
    by simp
qed

lemma parse_chars_escape:
  "parse_chars (escape_char c @ rest) = cons_char c (parse_chars rest)"
proof -
  consider "c = 34" | "c = 92" | "c = 8" | "c = 9" | "c = 10" | "c = 12" | "c = 13"
    | "c < 32" "c \<notin> {8, 9, 10, 12, 13}" | "32 \<le> c" "c \<noteq> 34" "c \<noteq> 92"
    by force
  then show ?thesis
  proof cases
    case 8
    then show ?thesis
      by (simp add: escape_char_def unicode_escape_def hex4_low)
  qed (simp_all add: escape_char_def unescape_def)
qed

lemma parse_chars_quoted:
  "parse_chars (concat (map escape_char s) @ 34 # r) = Some (s, r)"
  by (induction s) (simp_all add: parse_chars_escape cons_char_def)

lemma object_put_fresh: "k \<notin> fst ` set obj \<Longrightarrow> object_put k v obj = obj @ [(k, v)]"
  by (induction obj) auto

lemma foldl_object_put:
  "distinct (map fst (obj @ ms)) \<Longrightarrow>
     foldl (\<lambda>obj m. object_put (fst m) (snd m) obj) obj ms = obj @ ms"
proof (induction ms arbitrary: obj)
  case Nil
  show ?case by simp
next
  case (Cons m ms)
  from Cons.prems have "fst m \<notin> fst ` set obj"
    by auto
  then have "object_put (fst m) (snd m) obj = obj @ [m]"
    by (simp add: object_put_fresh)
  moreover from Cons.prems have "distinct (map fst ((obj @ [m]) @ ms))"
    by simp
  ultimately show ?case
    using Cons.IH [of "obj @ [m]"] by simp
qed

lemma object_of_distinct: "distinct (map fst ms) \<Longrightarrow> object_of ms = ms"
  using foldl_object_put [of "[]" ms] by (simp add: object_of_def)

lemma number_text_start: "\<exists>c cs. number_text i = c # cs \<and> (c = 45 \<or> is_digit c)"
proof (cases "i < 0")
  case True
  then show ?thesis by (simp add: number_text_def)
next
  case False
  then show ?thesis
    using digits_nonempty [of "nat i"] digits_hd_digit [of "nat i"]
    by (cases "digits (nat i)") (auto simp: number_text_def)
qed

lemma stringify_start:
  "plain j \<Longrightarrow> \<exists>c cs. JSON_stringify j = c # cs \<and> value_start c"
proof (cases j)
  case (JNum i)
  then show ?thesis
    using number_text_start [of i] by (auto simp: value_start_def)
qed (auto simp: value_start_def js_def quote_def)

lemma skip_ws_start: "value_start c \<Longrightarrow> skip_ws (c # cs) = c # cs"
  by (auto simp: skip_ws_def json_space_def value_start_def is_digit_def)

lemma skip_ws_punct [simp]:
  "skip_ws (44 # r) = 44 # r" "skip_ws (93 # r) = 93 # r" "skip_ws (125 # r) = 125 # r"
  "skip_ws (58 # r) = 58 # r" "skip_ws (34 # r) = 34 # r"
  by (simp_all add: skip_ws_def json_space_def)

lemma parse_value_number:
  assumes "delimited r"
  shows "parse_value (Suc k) (number_text i @ r) = Some (JNum i, r)"
proof -
  obtain c cs where n: "number_text i = c # cs" "c = 45 \<or> is_digit c"
    using number_text_start by blast
  then have s: "skip_ws (c # cs @ r) = c # cs @ r"
    by (intro skip_ws_start) (auto simp: value_start_def)
  have "parse_value (Suc k) (c # cs @ r) = parse_number (c # cs @ r)"
    using n(2) by (auto simp: s js_def is_digit_def simp del: skip_ws_punct)
  then show ?thesis
    using parse_number_text [OF assms, of i] n(1) by simp
qed

lemma parse_value_string:
  "parse_value (Suc k) (34 # s) =
     (case parse_chars s of None \<Rightarrow> None | Some (str, r) \<Rightarrow> Some (JStr str, r))"
  by simp

lemma parse_value_array:
  "parse_value (Suc k) (91 # s) =
     (case skip_ws s of
        [] \<Rightarrow> None
      | d # ds \<Rightarrow>
          if d = 93 then Some (JArr [], ds)
          else (case parse_elements k (d # ds) of
                  None \<Rightarrow> None
                | Some (xs, r) \<Rightarrow> Some (JArr xs, r)))"
  by (simp add: skip_ws_def json_space_def)

lemma parse_value_object:
  "parse_value (Suc k) (123 # s) =
     (case skip_ws s of
        [] \<Rightarrow> None
      | d # ds \<Rightarrow>
          if d = 125 then Some (JObj [], ds)
          else (case parse_members k (d # ds) of
                  None \<Rightarrow> None
                | Some (ms, r) \<Rightarrow> Some (JObj (object_of ms), r)))"
  by (simp add: skip_ws_def json_space_def)

lemma parse_value_literals:
  "parse_value (Suc k) (js ''null'' @ r) = Some (JNull, r)"
  "parse_value (Suc k) (js ''true'' @ r) = Some (JBool True, r)"
  "parse_value (Suc k) (js ''false'' @ r) = Some (JBool False, r)"
  by (simp_all add: js_def skip_ws_def json_space_def)

lemma parse_elements_step:
  "parse_value k s = Some (x, c # cs) \<Longrightarrow> c = 44 \<or> c = 93 \<Longrightarrow>
   parse_elements (Suc k) s =
     (if c = 44 then (case parse_elements k cs of None \<Rightarrow> None | Some (xs, r') \<Rightarrow> Some (x # xs, r'))
      else Some ([x], cs))"
  by auto

lemma parse_members_step:
  "parse_chars s = Some (key, 58 # ds) \<Longrightarrow> parse_value k ds = Some (v, e # es) \<Longrightarrow>
   e = 44 \<or> e = 125 \<Longrightarrow>
   parse_members (Suc k) (34 # s) =
     (if e = 44 then (case parse_members k es of None \<Rightarrow> None | Some (ms, r'') \<Rightarrow> Some ((key, v) # ms, r''))
      else Some ([(key, v)], es))"
  by auto

lemma elements_start:
  "plain_elements xs \<Longrightarrow> xs \<noteq> [] \<Longrightarrow> \<exists>c cs. stringify_elements xs = c # cs \<and> value_start c"
proof (cases xs)
  case Nil
  assume "xs \<noteq> []"
  with Nil show ?thesis by simp
next
  case (Cons x ys)
  assume "plain_elements xs"
  with Cons obtain c cs where "JSON_stringify x = c # cs" "value_start c"
    using stringify_start [of x] by auto
  with Cons show ?thesis
    by (cases ys) auto
qed

lemma members_start:
  "ms \<noteq> [] \<Longrightarrow> \<exists>cs. stringify_members ms = 34 # cs"
proof (cases ms)
  case Nil
  assume "ms \<noteq> []"
  with Nil show ?thesis by simp
next
  case (Cons m ns)
  then show ?thesis
    by (cases m; cases ns) (auto simp: quote_def)
qed

lemma value_start_not_close: "value_start c \<Longrightarrow> c \<noteq> 93 \<and> c \<noteq> 125"
  by (auto simp: value_start_def is_digit_def)

lemma delimited_simps [simp]: "delimited (44 # r)" "delimited (93 # r)" "delimited (125 # r)" "delimited []"
  by (simp_all add: delimited_def)

lemma roundtrip:
  "plain j \<Longrightarrow> (\<forall>k r. 2 * length (JSON_stringify j) < k \<longrightarrow> delimited r \<longrightarrow>
      parse_value k (JSON_stringify j @ r) = Some (j, r))"
  "plain_elements xs \<Longrightarrow> xs \<noteq> [] \<Longrightarrow> (\<forall>k r. 2 * length (stringify_elements xs) + 1 < k \<longrightarrow>
      parse_elements k (stringify_elements xs @ 93 # r) = Some (xs, r))"
  "plain_members ms \<Longrightarrow> ms \<noteq> [] \<Longrightarrow> (\<forall>k r. 2 * length (stringify_members ms) + 1 < k \<longrightarrow>
      parse_members k (stringify_members ms @ 125 # r) = Some (ms, r))"
proof (induction j and xs and ms rule: JSON_stringify_stringify_elements_stringify_members.induct)
  case 1
  show ?case
  proof (intro allI impI)
    fix k :: nat and r :: jsstring
    assume "2 * length (JSON_stringify JNull) < k"
    then obtain k' where "k = Suc k'"
      by (cases k) auto
    then show "parse_value k (JSON_stringify JNull @ r) = Some (JNull, r)"
      by (simp only: JSON_stringify.simps parse_value_literals)
  qed
next
  case (2 b)
  show ?case
  proof (intro allI impI)
    fix k :: nat and r :: jsstring
    assume "2 * length (JSON_stringify (JBool b)) < k"
    then obtain k' where "k = Suc k'"
      by (cases k) auto
    then show "parse_value k (JSON_stringify (JBool b) @ r) = Some (JBool b, r)"
      by (cases b) (simp_all only: JSON_stringify.simps parse_value_literals if_True if_False)
  qed
next
  case (3 i)
  show ?case
  proof (intro allI impI)
    fix k :: nat and r :: jsstring
    assume "2 * length (JSON_stringify (JNum i)) < k" and d: "delimited r"
    then obtain k' where "k = Suc k'"
      by (cases k) auto
    then show "parse_value k (JSON_stringify (JNum i) @ r) = Some (JNum i, r)"
      using parse_value_number [OF d] by simp
  qed
next
  case (4 literal)
  then show ?case by simp
next
  case (5 s)
  show ?case
  proof (intro allI impI)
    fix k :: nat and r :: jsstring
    assume "2 * length (JSON_stringify (JStr s)) < k"
    then obtain k' where "k = Suc k'"
      by (cases k) auto
    then show "parse_value k (JSON_stringify (JStr s) @ r) = Some (JStr s, r)"
      by (simp add: quote_def parse_value_string parse_chars_quoted del: parse_value.simps)
  qed
next
  case (6 xs)
  show ?case
  proof (intro allI impI)
    fix k :: nat and r :: jsstring
    assume k: "2 * length (JSON_stringify (JArr xs)) < k"
    then obtain k' where k': "k = Suc k'"
      by (cases k) auto
    show "parse_value k (JSON_stringify (JArr xs) @ r) = Some (JArr xs, r)"
    proof (cases "xs = []")
      case True
      then show ?thesis
        by (simp add: k' parse_value_array del: parse_value.simps)
    next
      case False
      from 6 have p: "plain_elements xs" by simp
      obtain c cs where c: "stringify_elements xs = c # cs" "value_start c"
        using elements_start [OF p False] by blast
      have "2 * length (stringify_elements xs) + 1 < k'"
        using k k' by simp
      then have "parse_elements k' (stringify_elements xs @ 93 # r) = Some (xs, r)"
        using "6.IH" [OF p False] by blast
      then show ?thesis
        using c value_start_not_close [of c]
        by (simp add: k' parse_value_array skip_ws_start del: parse_value.simps parse_elements.simps)
    qed
  qed
next
  case (7 ms)
  show ?case
  proof (intro allI impI)
    fix k :: nat and r :: jsstring
    assume k: "2 * length (JSON_stringify (JObj ms)) < k"
    then obtain k' where k': "k = Suc k'"
      by (cases k) auto
    show "parse_value k (JSON_stringify (JObj ms) @ r) = Some (JObj ms, r)"
    proof (cases "ms = []")
      case True
      then show ?thesis
        by (simp add: k' parse_value_object del: parse_value.simps)
    next
      case False
      from 7 have p: "plain_members ms" and d: "distinct (map fst ms)" by simp_all
      obtain cs where c: "stringify_members ms = 34 # cs"
        using members_start [OF False] by blast
      have "2 * length (stringify_members ms) + 1 < k'"
        using k k' by simp
      then have "parse_members k' (stringify_members ms @ 125 # r) = Some (ms, r)"
        using "7.IH" [OF p False] by blast
      then show ?thesis
        using c
        by (simp add: k' parse_value_object object_of_distinct [OF d]
            del: parse_value.simps parse_members.simps)
    qed
  qed
next
  case 8
  then show ?case by simp
next
  case (9 x)
  show ?case
  proof (intro allI impI)
    fix k :: nat and r :: jsstring
    assume k: "2 * length (stringify_elements [x]) + 1 < k"
    then obtain k' where k': "k = Suc k'"
      by (cases k) auto
    from 9 have p: "plain x" by simp
    have "2 * length (JSON_stringify x) < k'"
      using k k' by simp
    then have "parse_value k' (JSON_stringify x @ 93 # r) = Some (x, 93 # r)"
      using "9.IH" [OF p] by simp
    then show "parse_elements k (stringify_elements [x] @ 93 # r) = Some ([x], r)"
      using parse_elements_step [of k' "JSON_stringify x @ 93 # r" x 93 r]
      by (simp add: k' del: parse_elements.simps)
  qed
next
  case (10 x y ys)
  show ?case
  proof (intro allI impI)
    fix k :: nat and r :: jsstring
    assume k: "2 * length (stringify_elements (x # y # ys)) + 1 < k"
    then obtain k' where k': "k = Suc k'"
      by (cases k) auto
    from 10 have p: "plain x" "plain_elements (y # ys)" by simp_all
    let ?rest = "stringify_elements (y # ys) @ 93 # r"
    have "2 * length (JSON_stringify x) < k'"
      using k k' by simp
    then have 1: "parse_value k' (JSON_stringify x @ 44 # ?rest) = Some (x, 44 # ?rest)"
      using "10.IH"(1) [OF p(1)] by simp
    have "2 * length (stringify_elements (y # ys)) + 1 < k'"
      using k k' by simp
    then have 2: "parse_elements k' ?rest = Some (y # ys, r)"
      using "10.IH"(2) [OF p(2)] by blast
    show "parse_elements k (stringify_elements (x # y # ys) @ 93 # r) = Some (x # y # ys, r)"
      using parse_elements_step [OF 1] 2
      by (simp add: k' del: parse_elements.simps)
  qed
next
  case 11
  then show ?case by simp
next
  case (12 key v)
  show ?case
  proof (intro allI impI)
    fix k :: nat and r :: jsstring
    assume k: "2 * length (stringify_members [(key, v)]) + 1 < k"
    then obtain k' where k': "k = Suc k'"
      by (cases k) auto
    from 12 have p: "plain v" by simp
    let ?s = "concat (map escape_char key) @ 34 # 58 # JSON_stringify v @ 125 # r"
    have 1: "parse_chars ?s = Some (key, 58 # JSON_stringify v @ 125 # r)"
      by (rule parse_chars_quoted)
    have "2 * length (JSON_stringify v) < k'"
      using k k' by simp
    then have 2: "parse_value k' (JSON_stringify v @ 125 # r) = Some (v, 125 # r)"
      using "12.IH" [OF p] by simp
    show "parse_members k (stringify_members [(key, v)] @ 125 # r) = Some ([(key, v)], r)"
      using parse_members_step [OF 1 2]
      by (simp add: k' quote_def del: parse_members.simps)
  qed
next
  case (13 key v m ms)
  show ?case
  proof (intro allI impI)
    fix k :: nat and r :: jsstring
    assume k: "2 * length (stringify_members ((key, v) # m # ms)) + 1 < k"
    then obtain k' where k': "k = Suc k'"
      by (cases k) auto
    from 13 have p: "plain v" "plain_members (m # ms)" by simp_all
    let ?rest = "stringify_members (m # ms) @ 125 # r"
    let ?s = "concat (map escape_char key) @ 34 # 58 # JSON_stringify v @ 44 # ?rest"
    have 1: "parse_chars ?s = Some (key, 58 # JSON_stringify v @ 44 # ?rest)"
      by (rule parse_chars_quoted)
    have "2 * length (JSON_stringify v) < k'"
      using k k' by simp
    then have 2: "parse_value k' (JSON_stringify v @ 44 # ?rest) = Some (v, 44 # ?rest)"
      using "13.IH"(1) [OF p(1)] by simp
    have "2 * length (stringify_members (m # ms)) + 1 < k'"
      using k k' by simp
    then have 3: "parse_members k' ?rest = Some (m # ms, r)"
      using "13.IH"(2) [OF p(2)] by blast
    show "parse_members k (stringify_members ((key, v) # m # ms) @ 125 # r) =
        Some ((key, v) # m # ms, r)"
      using parse_members_step [OF 1 2] 3
      by (simp add: k' quote_def del: parse_members.simps)
  qed
qed

lemma JSON_roundtrip:
  assumes "plain j"
  shows "JSON_parse (JSON_stringify j) = Some j"
proof -
  have "parse_value (2 * length (JSON_stringify j) + 2) (JSON_stringify j @ []) = Some (j, [])"
    using roundtrip(1) [OF assms, rule_format, of "2 * length (JSON_stringify j) + 2" "[]"]
    by simp
  then show ?thesis
    by (simp add: JSON_parse_def skip_ws_def del: parse_value.simps)
qed

lemma skip_ws_length: "length (skip_ws s) \<le> length s"
  by (simp add: skip_ws_def length_dropWhile_le)

lemma skip_ws_Cons_length: "skip_ws s = c # cs \<Longrightarrow> length cs < length s"
  using skip_ws_length [of s] by simp

lemma parse_chars_shorter: "parse_chars s = Some (str, r) \<Longrightarrow> length r < length s"
proof (induction s arbitrary: str rule: parse_chars.induct)
  case 1
  then show ?case by simp
next
  case (2 c cs)
  then show ?case
    by (fastforce simp: cons_char_def split: if_splits list.splits option.splits)
qed

lemma fraction_length: "fraction s = Some (f, r) \<Longrightarrow> length r \<le> length s"
  by (auto simp: fraction_def length_dropWhile_le le_SucI split: list.splits if_splits)

lemma exponent_length: "exponent s = Some (e, r) \<Longrightarrow> length r \<le> length s"
proof -
  assume a: "exponent s = Some (e, r)"
  show ?thesis
  proof (cases s)
    case Nil
    with a show ?thesis by (simp add: exponent_def)
  next
    case (Cons c t)
    show ?thesis
    proof (cases "c = 101 \<or> c = 69")
      case False
      with a Cons show ?thesis by (simp add: exponent_def)
    next
      case True
      define sign where "sign = (case t of [] \<Rightarrow> [] | d # _ \<Rightarrow> if d = 43 \<or> d = 45 then [d] else [])"
      from a Cons True have "r = dropWhile is_digit (drop (length sign) t)"
        by (auto simp: exponent_def Let_def sign_def split: if_splits)
      then have "length r \<le> length t"
        using length_dropWhile_le [of is_digit "drop (length sign) t"] by simp
      with Cons show ?thesis by simp
    qed
  qed
qed

lemma parse_number_shorter: "parse_number s = Some (j, r) \<Longrightarrow> length r < length s"
proof -
  assume a: "parse_number s = Some (j, r)"
  define s1 where "s1 = (if (case s of [] \<Rightarrow> False | c # _ \<Rightarrow> c = 45) then tl s else s)"
  have l1: "length s1 \<le> length s"
    by (simp add: s1_def)
  from a have w: "takeWhile is_digit s1 \<noteq> []"
    by (auto simp: parse_number_def Let_def s1_def split: if_splits)
  from a obtain f s2 e where f: "fraction (dropWhile is_digit s1) = Some (f, s2)"
    and e: "exponent s2 = Some (e, r)"
    by (auto simp: parse_number_def Let_def s1_def split: if_splits option.splits)
  have "length (dropWhile is_digit s1) < length s1"
    using w by (cases s1) (auto simp: length_dropWhile_le less_Suc_eq_le split: if_splits)
  with fraction_length [OF f] exponent_length [OF e] l1 show ?thesis
    by simp
qed

lemma parse_shorter:
  "parse_value k s = Some (j, r) \<Longrightarrow> length r < length s"
  "parse_elements k s = Some (xs, r) \<Longrightarrow> length r < length s"
  "parse_members k s = Some (ms, r) \<Longrightarrow> length r < length s"
proof (induction k s and k s and k s arbitrary: j r and xs r and ms r
    rule: parse_value_parse_elements_parse_members.induct)
  case (1 s)
  then show ?case by simp
next
  case (2 k s)
  from "2.prems" obtain c cs where c: "skip_ws s = c # cs"
    by (cases "skip_ws s") auto
  note l = skip_ws_Cons_length [OF c]
  consider (str) "c = 34" | (arr) "c = 91" | (obj) "c = 123" | (other) "c \<noteq> 34" "c \<noteq> 91" "c \<noteq> 123"
    by blast
  then show ?case
  proof cases
    case str
    with "2.prems" c obtain str' where "parse_chars cs = Some (str', r)"
      by (auto split: option.splits)
    from parse_chars_shorter [OF this] l show ?thesis by simp
  next
    case arr
    from "2.prems" c arr obtain d ds where d: "skip_ws cs = d # ds"
      by (cases "skip_ws cs") auto
    note l2 = skip_ws_Cons_length [OF d]
    show ?thesis
    proof (cases "d = 93")
      case True
      with "2.prems" c arr d have "r = ds" by simp
      with l l2 show ?thesis by simp
    next
      case False
      with "2.prems" c arr d obtain xs where "parse_elements k (d # ds) = Some (xs, r)"
        by (auto split: option.splits)
      from "2.IH"(1) [OF c _ _ d False this] arr have "length r < length (d # ds)"
        by simp
      with l l2 show ?thesis by simp
    qed
  next
    case obj
    from "2.prems" c obj obtain d ds where d: "skip_ws cs = d # ds"
      by (cases "skip_ws cs") auto
    note l2 = skip_ws_Cons_length [OF d]
    show ?thesis
    proof (cases "d = 125")
      case True
      with "2.prems" c obj d have "r = ds" by simp
      with l l2 show ?thesis by simp
    next
      case False
      with "2.prems" c obj d obtain ms where "parse_members k (d # ds) = Some (ms, r)"
        by (auto split: option.splits)
      from "2.IH"(2) [OF c _ _ _ d False this] obj have "length r < length (d # ds)"
        by simp
      with l l2 show ?thesis by simp
    qed
  next
    case other
    with "2.prems" c have "r = drop 4 (c # cs) \<and> 4 \<le> length (c # cs) \<or>
        r = drop 5 (c # cs) \<and> 5 \<le> length (c # cs) \<or> parse_number (c # cs) = Some (j, r)"
      by (auto simp: js_def split: if_splits)
    then show ?thesis
      using l parse_number_shorter [of "c # cs" j r] by auto
  qed
next
  case (3 s)
  then show ?case by simp
next
  case (4 k s)
  from "4.prems" obtain x r1 where v: "parse_value k s = Some (x, r1)"
    by (auto split: option.splits)
  from "4.IH"(1) [OF v] have l1: "length r1 < length s" .
  from "4.prems" v obtain c cs where c: "skip_ws r1 = c # cs"
    by (cases "skip_ws r1") auto
  note l2 = skip_ws_Cons_length [OF c]
  show ?case
  proof (cases "c = 44")
    case True
    with "4.prems" v c obtain ys where "parse_elements k cs = Some (ys, r)"
      by (auto split: option.splits)
    from "4.IH"(2) [OF v _ c True this] have "length r < length cs"
      by simp
    with l1 l2 show ?thesis by simp
  next
    case False
    with "4.prems" v c have "r = cs"
      by (auto split: if_splits)
    with l1 l2 show ?thesis by simp
  qed
next
  case (5 s)
  then show ?case by simp
next
  case (6 k s)
  from "6.prems" obtain c cs where c: "skip_ws s = c # cs"
    by (cases "skip_ws s") auto
  note l = skip_ws_Cons_length [OF c]
  from "6.prems" c have c34: "c = 34"
    by (auto split: if_splits)
  from "6.prems" c c34 obtain key r1 where pc: "parse_chars cs = Some (key, r1)"
    by (auto split: option.splits)
  note l1 = parse_chars_shorter [OF pc]
  from "6.prems" c c34 pc obtain d ds where d: "skip_ws r1 = d # ds"
    by (cases "skip_ws r1") auto
  note l2 = skip_ws_Cons_length [OF d]
  from "6.prems" c c34 pc d have d58: "d = 58"
    by (auto split: if_splits)
  from "6.prems" c c34 pc d d58 obtain v r2 where pv: "parse_value k ds = Some (v, r2)"
    by (auto split: option.splits)
  from "6.IH"(1) [OF c c34 pc _ d d58 pv] have l3: "length r2 < length ds"
    by simp
  from "6.prems" c c34 pc d d58 pv obtain e es where e: "skip_ws r2 = e # es"
    by (cases "skip_ws r2") auto
  note l4 = skip_ws_Cons_length [OF e]
  show ?case
  proof (cases "e = 44")
    case True
    with "6.prems" c c34 pc d d58 pv e obtain ns where pm: "parse_members k es = Some (ns, r)"
      by (auto split: option.splits)
    from "6.IH"(2) [OF c c34 pc _ d d58 pv _ e True pm] have "length r < length es"
      by simp
    with l l1 l2 l3 l4 show ?thesis by simp
  next
    case False
    with "6.prems" c c34 pc d d58 pv e have "r = es"
      by (auto split: if_splits)
    with l l1 l2 l3 l4 show ?thesis by simp
  qed
qed

lemma parse_value_fuel_cong:
  assumes "\<And>t. length t < length s \<Longrightarrow> parse_elements k t = parse_elements k' t"
    and "\<And>t. length t < length s \<Longrightarrow> parse_members k t = parse_members k' t"
  shows "parse_value (Suc k) s = parse_value (Suc k') s"
proof (cases "skip_ws s")
  case Nil
  then show ?thesis by simp
next
  case (Cons c cs)
  note l = skip_ws_Cons_length [OF Cons]
  show ?thesis
  proof (cases "skip_ws cs")
    case Nil
    with Cons show ?thesis by simp
  next
    case d: (Cons d ds)
    from skip_ws_Cons_length [OF d] l have "length (d # ds) < length s"
      by simp
    then have "parse_elements k (d # ds) = parse_elements k' (d # ds)"
      and "parse_members k (d # ds) = parse_members k' (d # ds)"
      using assms by blast+
    with Cons d show ?thesis
      by simp
  qed
qed

lemma parse_elements_fuel_cong:
  assumes "parse_value k s = parse_value k' s"
    and "\<And>t. length t + 1 < length s \<Longrightarrow> parse_elements k t = parse_elements k' t"
  shows "parse_elements (Suc k) s = parse_elements (Suc k') s"
proof (cases "parse_value k s")
  case None
  with assms(1) have "parse_value k' s = None" by simp
  with None show ?thesis by simp
next
  case (Some p)
  obtain x r where p: "p = (x, r)" by (cases p)
  from Some p have v: "parse_value k s = Some (x, r)" by simp
  with assms(1) have v': "parse_value k' s = Some (x, r)" by simp
  note l = parse_shorter(1) [OF v]
  show ?thesis
  proof (cases "skip_ws r")
    case Nil
    with v v' show ?thesis by simp
  next
    case (Cons c cs)
    from skip_ws_Cons_length [OF Cons] l have "length cs + 1 < length s"
      by simp
    then have "parse_elements k cs = parse_elements k' cs"
      using assms(2) by blast
    with v v' Cons show ?thesis
      by simp
  qed
qed

lemma parse_members_fuel_cong:
  assumes "\<And>t. length t + 2 < length s \<Longrightarrow> parse_value k t = parse_value k' t"
    and "\<And>t. length t + 2 < length s \<Longrightarrow> parse_members k t = parse_members k' t"
  shows "parse_members (Suc k) s = parse_members (Suc k') s"
proof (cases "skip_ws s")
  case Nil
  then show ?thesis by simp
next
  case (Cons c cs)
  note l = skip_ws_Cons_length [OF Cons]
  show ?thesis
  proof (cases "parse_chars cs")
    case None
    with Cons show ?thesis by simp
  next
    case (Some p)
    obtain key r where p: "p = (key, r)" by (cases p)
    from Some p have pc: "parse_chars cs = Some (key, r)" by simp
    note l1 = parse_chars_shorter [OF pc]
    show ?thesis
    proof (cases "skip_ws r")
      case Nil
      with Cons pc show ?thesis by simp
    next
      case d: (Cons d ds)
      note l2 = skip_ws_Cons_length [OF d]
      from l l1 l2 have "length ds + 2 < length s"
        by simp
      then have ev: "parse_value k ds = parse_value k' ds"
        using assms(1) by blast
      show ?thesis
      proof (cases "parse_value k ds")
        case None
        with ev have "parse_value k' ds = None" by simp
        with Cons pc d None show ?thesis by simp
      next
        case (Some q)
        obtain v r2 where q: "q = (v, r2)" by (cases q)
        from Some q have pv: "parse_value k ds = Some (v, r2)" by simp
        with ev have pv': "parse_value k' ds = Some (v, r2)" by simp
        note l3 = parse_shorter(1) [OF pv]
        show ?thesis
        proof (cases "skip_ws r2")
          case Nil
          with Cons pc d pv pv' show ?thesis by simp
        next
          case e: (Cons e es)
          from skip_ws_Cons_length [OF e] l l1 l2 l3 have "length es + 2 < length s"
            by simp
          then have "parse_members k es = parse_members k' es"
            using assms(2) by blast
          with Cons pc d pv pv' e show ?thesis
            by simp
        qed
      qed
    qed
  qed
qed

lemma fuel_step:
  "(\<forall>s. 2 * length s < k \<longrightarrow> parse_value (Suc k) s = parse_value k s) \<and>
   (\<forall>s. 2 * length s + 1 < k \<longrightarrow> parse_elements (Suc k) s = parse_elements k s) \<and>
   (\<forall>s. 2 * length s < k \<longrightarrow> parse_members (Suc k) s = parse_members k s)"
proof (induction k)
  case 0
  show ?case by simp
next
  case (Suc k)
  then have v: "\<And>s. 2 * length s < k \<Longrightarrow> parse_value (Suc k) s = parse_value k s"
    and e: "\<And>s. 2 * length s + 1 < k \<Longrightarrow> parse_elements (Suc k) s = parse_elements k s"
    and m: "\<And>s. 2 * length s < k \<Longrightarrow> parse_members (Suc k) s = parse_members k s"
    by blast+
  show ?case
  proof (intro conjI allI impI)
    fix s :: jsstring
    assume "2 * length s < Suc k"
    then show "parse_value (Suc (Suc k)) s = parse_value (Suc k) s"
      by (intro parse_value_fuel_cong e m) simp_all
  next
    fix s :: jsstring
    assume "2 * length s + 1 < Suc k"
    then show "parse_elements (Suc (Suc k)) s = parse_elements (Suc k) s"
      by (intro parse_elements_fuel_cong v e) simp_all
  next
    fix s :: jsstring
    assume "2 * length s < Suc k"
    then show "parse_members (Suc (Suc k)) s = parse_members (Suc k) s"
      by (intro parse_members_fuel_cong v m) simp_all
  qed
qed

lemma fuel_enough: "2 * length s < k \<Longrightarrow> parse_value k s = parse_value (2 * length s + 1) s"
proof (induction k)
  case 0
  then show ?case by simp
next
  case (Suc k)
  show ?case
  proof (cases "2 * length s < k")
    case True
    with Suc.IH fuel_step [of k] show ?thesis
      by simp
  next
    case False
    with Suc.prems have "Suc k = 2 * length s + 1"
      by simp
    then show ?thesis
      by (simp del: parse_value.simps)
  qed
qed

text \<open>The result of \<open>JSON_parse\<close> does not depend on the fuel, once it exceeds twice the length.\<close>

lemma JSON_parse_fuel:
  "2 * length s < k \<Longrightarrow>
     JSON_parse s =
       (case parse_value k s of
          None \<Rightarrow> None
        | Some (v, r) \<Rightarrow> if skip_ws r = [] then Some v else None)"
  using fuel_enough [of s k] fuel_enough [of s "2 * length s + 2"]
  by (simp add: JSON_parse_def del: parse_value.simps)

section \<open>Persistence of the cart\<close>

lemma plain_item_json: "plain (item_json i)"
  by (simp add: item_json_def js_def)

lemma plain_items_json: "plain (items_json xs)"
  by (induction xs) (simp_all add: items_json_def plain_item_json)

lemma item_json_inject: "item_json a = item_json b \<Longrightarrow> a = b"
  by (cases a; cases b) (simp add: item_json_def)

lemma items_json_inject: "items_json xs = items_json ys \<Longrightarrow> xs = ys"
proof -
  assume "items_json xs = items_json ys"
  then have "map item_json xs = map item_json ys"
    by (simp add: items_json_def)
  then show "xs = ys"
    by (induction xs arbitrary: ys) (auto dest: item_json_inject)
qed

lemma stringify_items_nonempty: "JSON_stringify (items_json xs) \<noteq> []"
  by (simp add: items_json_def)

lemma load_saved:
  assumes "\<not> read_fails s" "cell s = Some (JSON_stringify (items_json xs))"
  shows "loadFromStorage \<lparr>items = v, localStorage = s, console = l\<rparr> =
    \<lparr>items = items_json xs, localStorage = s, console = l\<rparr>"
  using assms
  by (simp add: loadFromStorage_def try_catch_def getItem_def stringify_items_nonempty
      JSON_roundtrip [OF plain_items_json])

lemma saved_cell:
  "\<not> write_fails (localStorage c) \<Longrightarrow>
     localStorage (saveToStorage c) =
       (localStorage c)\<lparr>cell := Some (JSON_stringify (items_json (items c)))\<rparr> \<and>
     console (saveToStorage c) = console c"
  by (simp add: saveToStorage_def try_catch_def setItem_def)

text \<open>
  C4. When the storage takes the write and can be read, saving a cart and loading it back
  gives \<open>this.items\<close> the value of the same entry list, for every entry list: the same
  entries with the same fields, in the same order. This holds for loading into the same
  cart object and for a cart constructed afterwards on that storage.
\<close>

theorem save_load_roundtrip:
  "\<not> write_fails (localStorage c) \<Longrightarrow> \<not> read_fails (localStorage c) \<Longrightarrow>
     items (loadFromStorage (as_object (saveToStorage c))) = items_json (items c) \<and>
     items (ProductCart (localStorage (saveToStorage c)) l) = items_json (items c) \<and>
     (\<forall>xs. items_json xs = items_json (items c) \<longrightarrow> xs = items c)"
proof (intro conjI allI impI)
  assume w: "\<not> write_fails (localStorage c)" and r: "\<not> read_fails (localStorage c)"
  let ?s = "localStorage (saveToStorage c)"
  from saved_cell [OF w] r have s: "\<not> read_fails ?s"
    "cell ?s = Some (JSON_stringify (items_json (items c)))"
    by simp_all
  show "items (loadFromStorage (as_object (saveToStorage c))) = items_json (items c)"
    unfolding as_object_def by (simp add: load_saved [OF s])
  show "items (ProductCart (localStorage (saveToStorage c)) l) = items_json (items c)"
    unfolding ProductCart_def by (simp add: load_saved [OF s])
next
  fix xs
  assume "items_json xs = items_json (items c)"
  then show "xs = items c"
    by (rule items_json_inject)
qed

lemma one_phone_items: "items one_phone = [product.extend phone (cart_item.fields 1)]"
  by (simp add: one_phone_def addProduct_def validateProduct_def phone_def empty_cart_def js_def)

lemma one_phone_storage:
  "\<not> write_fails (localStorage one_phone)" "\<not> read_fails (localStorage one_phone)"
  by (simp_all add: one_phone_def addProduct_def validateProduct_def phone_def empty_cart_def
      js_def saveToStorage_def try_catch_def setItem_def)

theorem save_load_roundtrip_witness:
  "\<not> write_fails (localStorage one_phone) \<and> \<not> read_fails (localStorage one_phone) \<and>
   items (ProductCart (localStorage (saveToStorage one_phone)) []) =
     items_json [product.extend phone (cart_item.fields 1)]"
proof -
  from save_load_roundtrip [OF one_phone_storage, of "[]"]
  have "items (ProductCart (localStorage (saveToStorage one_phone)) []) =
      items_json (items one_phone)"
    by (elim conjE)
  then have "items (ProductCart (localStorage (saveToStorage one_phone)) []) =
      items_json [product.extend phone (cart_item.fields 1)]"
    by (simp only: one_phone_items)
  with one_phone_storage show ?thesis
    by (intro conjI)
qed

lemma parse_value_examples:
  "parse_value (Suc k) (js ''42'') = Some (JNum 42, [])"
  "parse_value (Suc k) (js ''null'') = Some (JNull, [])"
  by (simp_all add: js_def skip_ws_def json_space_def parse_number_def is_digit_def fraction_def
      exponent_def digits_value_def Let_def)

lemma JSON_parse_examples:
  "JSON_parse (js ''42'') = Some (JNum 42)"
  "JSON_parse (js ''null'') = Some JNull"
proof -
  have "2 * length (js ''42'') < Suc 4" "2 * length (js ''null'') < Suc 8"
    by (simp_all add: js_def)
  then show "JSON_parse (js ''42'') = Some (JNum 42)" "JSON_parse (js ''null'') = Some JNull"
    by (simp_all only: JSON_parse_fuel parse_value_examples) (simp_all add: skip_ws_def)
qed

text \<open>
  What the constructor leaves, by what the storage holds: the two failures that the
  \<open>catch\<close> handles, the two cases in which nothing is parsed, and the case in which
  \<open>JSON.parse\<close> returns a value.
\<close>

lemma ProductCart_cases:
  "read_fails s \<Longrightarrow> ProductCart s l =
     \<lparr>items = JArr [], localStorage = s, console = l @ [LoadFailed StorageError]\<rparr>"
  "\<not> read_fails s \<Longrightarrow> cell s = None \<or> cell s = Some [] \<Longrightarrow> ProductCart s l =
     \<lparr>items = JArr [], localStorage = s, console = l\<rparr>"
  "\<not> read_fails s \<Longrightarrow> cell s = Some t \<Longrightarrow> t \<noteq> [] \<Longrightarrow> JSON_parse t = None \<Longrightarrow>
     ProductCart s l = \<lparr>items = JArr [], localStorage = s, console = l @ [LoadFailed SyntaxError]\<rparr>"
  "\<not> read_fails s \<Longrightarrow> cell s = Some t \<Longrightarrow> t \<noteq> [] \<Longrightarrow> JSON_parse t = Some v \<Longrightarrow>
     ProductCart s l = \<lparr>items = v, localStorage = s, console = l\<rparr>"
  by (auto simp: ProductCart_def loadFromStorage_def try_catch_def getItem_def)

text \<open>
  C5, the source on stored data that is no cart. With the text \<open>42\<close>, or the text \<open>null\<close>,
  stored under the cart's key, the constructor returns with \<open>this.items\<close> the number 42,
  or null, and with nothing logged: the cart is not the empty cart that the claim requires
  for malformed stored data, and no error is reported. The \<open>catch\<close> of \<open>loadFromStorage\<close>
  falls back to the empty array only when \<open>getItem\<close> or \<open>JSON.parse\<close> throws.
\<close>

theorem load_non_array:
  "items (ProductCart (storage_with (js ''42'')) []) = JNum 42 \<and>
   items (ProductCart (storage_with (js ''42'')) []) \<noteq> JArr [] \<and>
   console (ProductCart (storage_with (js ''42'')) []) = [] \<and>
   items (ProductCart (storage_with (js ''null'')) []) = JNull \<and>
   items (ProductCart (storage_with (js ''null'')) []) \<noteq> JArr [] \<and>
   console (ProductCart (storage_with (js ''null'')) []) = []"
proof -
  have 1: "ProductCart (storage_with (js ''42'')) [] =
      \<lparr>items = JNum 42, localStorage = storage_with (js ''42''), console = []\<rparr>"
    by (rule ProductCart_cases(4) [where t = "js ''42''"])
      (simp_all add: storage_with_def JSON_parse_examples js_eq_Nil)
  have 2: "ProductCart (storage_with (js ''null'')) [] =
      \<lparr>items = JNull, localStorage = storage_with (js ''null''), console = []\<rparr>"
    by (rule ProductCart_cases(4) [where t = "js ''null''"])
      (simp_all add: storage_with_def JSON_parse_examples js_eq_Nil)
  show ?thesis
    by (simp add: 1 2)
qed

end
